theory Spec2Isabelle
  imports Main "HOL-Library.Sublist"
begin

section \<open>Strings of the host language\<close>

text \<open>
  A string is a list of characters. Characters are the 8-bit \<^typ>\<open>char\<close> of HOL, so the
  model covers the code units 0..255; every pattern of the program is written in ASCII.
\<close>

definition squote :: char where "squote = CHR 0x27"
definition dquote :: char where "dquote = CHR 0x22"
definition backtick :: char where "backtick = CHR 0x60"
definition LF :: char where "LF = CHR 0x0A"
definition CR :: char where "CR = CHR 0x0D"

text \<open>The class \<open>\s\<close>, which is also what \<open>trim\<close> strips: tab, line feed, vertical tab,
  form feed, carriage return, space and the no-break space.\<close>

definition is_space :: "char \<Rightarrow> bool" where
  "is_space c = (c = CHR 0x09 \<or> c = LF \<or> c = CHR 0x0B \<or> c = CHR 0x0C \<or> c = CR
                 \<or> c = CHR 0x20 \<or> c = CHR 0xA0)"

text \<open>The class \<open>.\<close>: every character but a line terminator.\<close>

definition is_dot :: "char \<Rightarrow> bool" where
  "is_dot c = (c \<noteq> LF \<and> c \<noteq> CR)"

definition is_quote :: "char \<Rightarrow> bool" where
  "is_quote c = (c = squote \<or> c = dquote \<or> c = backtick)"

definition not_quote :: "char \<Rightarrow> bool" where
  "not_quote c = (\<not> is_quote c)"

text \<open>The class \<open>[a-zA-Z0-9_]\<close>.\<close>

definition is_word :: "char \<Rightarrow> bool" where
  "is_word c = (c \<in> set ''abcdefghijklmnopqrstuvwxyz'' \<or> c \<in> set ''ABCDEFGHIJKLMNOPQRSTUVWXYZ''
                \<or> c \<in> set ''0123456789'' \<or> c = CHR ''_'')"

text \<open>
  Upper case of one character. The program applies \<open>toUpperCase\<close> and the flag \<open>i\<close> only
  where the pattern is ASCII; a pattern letter then matches exactly its two ASCII cases,
  since no character outside ASCII is folded onto an ASCII one.
\<close>

definition upper_char :: "char \<Rightarrow> char" where
  "upper_char c =
     (case map_of (zip ''abcdefghijklmnopqrstuvwxyz'' ''ABCDEFGHIJKLMNOPQRSTUVWXYZ'') c of
        None \<Rightarrow> c
      | Some u \<Rightarrow> u)"

definition toUpperCase :: "string \<Rightarrow> string" where
  "toUpperCase s = map upper_char s"

definition trim :: "string \<Rightarrow> string" where
  "trim s = rev (dropWhile is_space (rev (dropWhile is_space s)))"

text \<open>\<open>s.indexOf(t)\<close>: the first index at which \<open>t\<close> occurs in \<open>s\<close>, if any.\<close>

fun indexOf_from :: "nat \<Rightarrow> string \<Rightarrow> string \<Rightarrow> nat option" where
  "indexOf_from k [] t = (if t = [] then Some k else None)"
| "indexOf_from k (c # cs) t =
     (if prefix t (c # cs) then Some k else indexOf_from (Suc k) cs t)"

definition indexOf :: "string \<Rightarrow> string \<Rightarrow> nat option" where
  "indexOf s t = indexOf_from 0 s t"

text \<open>\<open>text.split(/\r?\n/)\<close>: a line ends at a line feed, and a carriage return right
  before that line feed belongs to the separator. Any other carriage return stays in its line.\<close>

fun split_lines :: "string \<Rightarrow> string list" where
  "split_lines [] = [[]]"
| "split_lines (c # cs) =
     (if c = LF then [] # split_lines cs
      else if c = CR \<and> take 1 cs = [LF] then [] # split_lines (drop 1 cs)
      else (case split_lines cs of
              [] \<Rightarrow> [[c]]
            | l # ls \<Rightarrow> (c # l) # ls))"

section \<open>Regular expressions with backtracking\<close>

text \<open>
  The patterns of the program use single characters and character classes, sequence,
  alternation, greedy repetition of a character class, capture groups, one back
  reference and the two anchors. The matcher returns every way of matching at the
  current position, in the order in which backtracking tries them: the head of the list
  is the match the host's engine reports.
\<close>

datatype regex =
    Eps
  | Cls "char \<Rightarrow> bool"
  | Seq regex regex
  | Alt regex regex
  | Star "char \<Rightarrow> bool"
  | Grp nat regex
  | Backref nat
  | Bol
  | Eol

type_synonym captures = "nat \<Rightarrow> string option"

text \<open>Greedy repetition of a class: the remaining inputs, longest repetition first.\<close>

fun star_rests :: "(char \<Rightarrow> bool) \<Rightarrow> string \<Rightarrow> string list" where
  "star_rests p [] = [[]]"
| "star_rests p (c # cs) = (if p c then star_rests p cs @ [c # cs] else [c # cs])"

text \<open>\<open>rmatch n r (s, caps)\<close>: \<open>n\<close> is the length of the whole input, \<open>s\<close> what is left of it.\<close>

fun rmatch :: "nat \<Rightarrow> regex \<Rightarrow> string \<times> captures \<Rightarrow> (string \<times> captures) list" where
  "rmatch n Eps st = [st]"
| "rmatch n (Cls p) (s, caps) =
     (case s of [] \<Rightarrow> [] | c # cs \<Rightarrow> if p c then [(cs, caps)] else [])"
| "rmatch n (Seq a b) st = concat (map (rmatch n b) (rmatch n a st))"
| "rmatch n (Alt a b) st = rmatch n a st @ rmatch n b st"
| "rmatch n (Star p) (s, caps) = map (\<lambda>r. (r, caps)) (star_rests p s)"
| "rmatch n (Grp g r) (s, caps) =
     map (\<lambda>(s', caps'). (s', caps'(g := Some (take (length s - length s') s))))
       (rmatch n r (s, caps))"
| "rmatch n (Backref g) (s, caps) =
     (case caps g of
        None \<Rightarrow> [(s, caps)]
      | Some t \<Rightarrow> if prefix t s then [(drop (length t) s, caps)] else [])"
| "rmatch n Bol (s, caps) = (if length s = n then [(s, caps)] else [])"
| "rmatch n Eol (s, caps) = (if s = [] then [(s, caps)] else [])"

text \<open>The result of \<open>s.match(r)\<close> for a pattern without the flag \<open>g\<close>.\<close>

record rx_match =
  index :: nat
  whole :: string
  groups :: captures

fun search :: "nat \<Rightarrow> regex \<Rightarrow> nat \<Rightarrow> string \<Rightarrow> rx_match option" where
  "search n r k s =
     (case rmatch n r (s, \<lambda>_. None) of
        (rest, caps) # _ \<Rightarrow>
          Some \<lparr>index = k, whole = take (length s - length rest) s, groups = caps\<rparr>
      | [] \<Rightarrow> (case s of [] \<Rightarrow> None | _ # cs \<Rightarrow> search n r (Suc k) cs))"

definition match :: "string \<Rightarrow> regex \<Rightarrow> rx_match option" where
  "match s r = search (length s) r 0 s"

definition test :: "regex \<Rightarrow> string \<Rightarrow> bool" where
  "test r s = (match s r \<noteq> None)"

text \<open>\<open>s.replace(r, t)\<close> for a pattern without the flag \<open>g\<close> and a replacement text
  without \<open>$\<close>.\<close>

definition replace :: "string \<Rightarrow> regex \<Rightarrow> string \<Rightarrow> string" where
  "replace s r t =
     (case match s r of
        None \<Rightarrow> s
      | Some m \<Rightarrow> take (index m) s @ t @ drop (index m + length (whole m)) s)"

subsection \<open>Building patterns\<close>

definition chr :: "char \<Rightarrow> regex" where
  "chr c = Cls (\<lambda>x. x = c)"

definition chr_i :: "char \<Rightarrow> regex" where
  "chr_i c = Cls (\<lambda>x. upper_char x = upper_char c)"

fun lit :: "string \<Rightarrow> regex" where
  "lit [] = Eps"
| "lit (c # cs) = Seq (chr c) (lit cs)"

fun lit_i :: "string \<Rightarrow> regex" where
  "lit_i [] = Eps"
| "lit_i (c # cs) = Seq (chr_i c) (lit_i cs)"

fun seqs :: "regex list \<Rightarrow> regex" where
  "seqs [] = Eps"
| "seqs (r # rs) = Seq r (seqs rs)"

definition opt :: "regex \<Rightarrow> regex" where
  "opt r = Alt r Eps"

definition many1 :: "(char \<Rightarrow> bool) \<Rightarrow> regex" where
  "many1 p = Seq (Cls p) (Star p)"

fun alts :: "regex list \<Rightarrow> regex" where
  "alts [] = Alt Eps Eps"
| "alts [r] = r"
| "alts (r # rs) = Alt r (alts rs)"

section \<open>Documents and diagnostics of the editor\<close>

record document =
  uri :: string
  languageId :: string
  getText :: string

datatype error = IllegalLine | Thrown string

text \<open>\<open>document.lineAt(n).text\<close>: the editor raises for a line the document does not have.\<close>

definition lineAt :: "document \<Rightarrow> nat \<Rightarrow> error + string" where
  "lineAt d n =
     (let ls = split_lines (getText d)
      in if n < length ls then Inr (ls ! n) else Inl IllegalLine)"

record range =
  startLine :: nat
  startCol :: nat
  endLine :: nat
  endCol :: nat

definition RangeOf :: "nat \<Rightarrow> nat \<Rightarrow> nat \<Rightarrow> nat \<Rightarrow> range" where
  "RangeOf l c l' c' = \<lparr>startLine = l, startCol = c, endLine = l', endCol = c'\<rparr>"

datatype severity = Error | Warning | Information | Hint

record diagnostic =
  rangeD :: range
  message :: string
  severity :: severity
  code :: string

definition Diagnostic :: "range \<Rightarrow> string \<Rightarrow> severity \<Rightarrow> string \<Rightarrow> diagnostic" where
  "Diagnostic r m s c = \<lparr>rangeD = r, message = m, severity = s, code = c\<rparr>"

definition hardcoded_secret :: string where
  "hardcoded_secret = ''SafePrompt.hardcoded_secret''"
definition missing_auth :: string where
  "missing_auth = ''SafePrompt.missing_auth''"
definition enhanced_prompt_loading :: string where
  "enhanced_prompt_loading = ''SafePrompt.enhanced_prompt_loading''"
definition enhanced_prompt :: string where
  "enhanced_prompt = ''SafePrompt.enhanced_prompt''"
definition enhanced_prompt_failed :: string where
  "enhanced_prompt_failed = ''SafePrompt.enhanced_prompt_failed''"

section \<open>The pattern scanner: \<open>findIssuesWithRegex\<close>\<close>

text \<open>\<open>/(api[_-]?key|apikey|secret|token)\s*[:=]\s*['"`]([^'"`]+)['"`]/i\<close>\<close>

definition secretKind :: regex where
  "secretKind = alts [seqs [lit_i ''api'', opt (Cls (\<lambda>c. c = CHR ''_'' \<or> c = CHR ''-'')), lit_i ''key''],
                      lit_i ''apikey'', lit_i ''secret'', lit_i ''token'']"

definition secretRegex :: regex where
  "secretRegex = seqs [Grp 1 secretKind, Star is_space,
                       Cls (\<lambda>c. c = CHR '':'' \<or> c = CHR ''=''), Star is_space,
                       Cls is_quote, Grp 2 (many1 not_quote), Cls is_quote]"

text \<open>\<open>/(function\s+([a-zA-Z0-9_]+)\s*\(|const\s+([a-zA-Z0-9_]+)\s*=\s*\(.*\)\s*=>|def\s+([a-zA-Z0-9_]+)\s*\()/i\<close>\<close>

definition funcRegex :: regex where
  "funcRegex = Grp 1 (alts
     [seqs [lit_i ''function'', many1 is_space, Grp 2 (many1 is_word), Star is_space, chr CHR ''(''],
      seqs [lit_i ''const'', many1 is_space, Grp 3 (many1 is_word), Star is_space, chr CHR ''='',
            Star is_space, chr CHR ''('', Star is_dot, chr CHR '')'', Star is_space, lit ''=>''],
      seqs [lit_i ''def'', many1 is_space, Grp 4 (many1 is_word), Star is_space, chr CHR ''('']])"

text \<open>\<open>/login|auth|getuser|admin/i\<close>\<close>

definition nameRegex :: regex where
  "nameRegex = alts [lit_i ''login'', lit_i ''auth'', lit_i ''getuser'', lit_i ''admin'']"

text \<open>\<open>/role|authorize|auth|req.user|hasRole/i\<close>\<close>

definition authRegex :: regex where
  "authRegex = alts [lit_i ''role'', lit_i ''authorize'', lit_i ''auth'',
                     seqs [lit_i ''req'', Cls is_dot, lit_i ''user''], lit_i ''hasRole'']"

text \<open>\<open>a || b || c || ''\<close> on capture groups: the first that took part in the match with a
  text that is not empty.\<close>

fun first_truthy :: "string option list \<Rightarrow> string" where
  "first_truthy [] = []"
| "first_truthy (None # xs) = first_truthy xs"
| "first_truthy (Some s # xs) = (if s = [] then first_truthy xs else s)"

definition secret_rule :: "nat \<times> string \<Rightarrow> diagnostic list" where
  "secret_rule = (\<lambda>(i, line).
     (case match line secretRegex of
        None \<Rightarrow> []
      | Some m \<Rightarrow>
          (let startCol = (case indexOf line (whole m) of Some k \<Rightarrow> k | None \<Rightarrow> 0)
           in [Diagnostic (RangeOf i startCol i (length line))
                 ''Hardcoded secret detected. Consider using environment variables.''
                 Warning hardcoded_secret])))"

text \<open>The name that the missing-authorization rule extracts from a line, if the line
  matches the pattern of a function definition.\<close>

definition functionName :: "string \<Rightarrow> string option" where
  "functionName line =
     (case match line funcRegex of
        None \<Rightarrow> None
      | Some m \<Rightarrow> Some (first_truthy [groups m 2, groups m 3, groups m 4]))"

definition auth_rule :: "string list \<Rightarrow> nat \<times> string \<Rightarrow> diagnostic list" where
  "auth_rule lines = (\<lambda>(i, line).
     (case functionName line of
        None \<Rightarrow> []
      | Some name \<Rightarrow>
          if test nameRegex name then
            (let hasAuth = list_ex (test authRegex) (take (min (length lines) (i + 8) - i) (drop i lines))
             in if \<not> hasAuth then
                  [Diagnostic (RangeOf i 0 i (length line))
                     (''Possible missing authorization check in function '' @ [dquote] @ name @ [dquote] @ ''.'')
                     Warning missing_auth]
                else [])
          else []))"

definition findIssuesWithRegex :: "document option \<Rightarrow> diagnostic list" where
  "findIssuesWithRegex document =
     (case document of
        None \<Rightarrow> []
      | Some d \<Rightarrow>
          (let lines = split_lines (getText d)
           in concat (map secret_rule (enumerate 0 lines))
              @ concat (map (auth_rule lines) (enumerate 0 lines))))"

section \<open>Prompt lines and the enhancement client\<close>

definition isTargetDoc :: "document option \<Rightarrow> bool" where
  "isTargetDoc document =
     (case document of
        None \<Rightarrow> False
      | Some d \<Rightarrow> languageId d \<in> set [''javascript'', ''javascriptreact'', ''python''])"

text \<open>\<open>/^\s*(?:\/\/|#)\s*PROMPT\s*:\s*(.+)$/i\<close>\<close>

definition promptRegex :: regex where
  "promptRegex = seqs [Bol, Star is_space, Alt (lit ''//'') (lit ''#''), Star is_space,
                       lit_i ''PROMPT'', Star is_space, chr CHR '':'', Star is_space,
                       Grp 1 (many1 is_dot), Eol]"

definition group :: "rx_match \<Rightarrow> nat \<Rightarrow> string" where
  "group m g = (case groups m g of None \<Rightarrow> [] | Some t \<Rightarrow> t)"

text \<open>The lines that the loop of \<open>detectAndEnhancePrompts\<close> does not skip, each with its
  index and its \<open>userPrompt\<close>, in the order of the loop.\<close>

definition promptLine :: "nat \<times> string \<Rightarrow> (nat \<times> string \<times> string) option" where
  "promptLine = (\<lambda>(i, line).
     (case match line promptRegex of
        None \<Rightarrow> None
      | Some m \<Rightarrow> Some (i, line, trim (group m 1))))"

definition promptLines :: "string list \<Rightarrow> (nat \<times> string \<times> string) list" where
  "promptLines lines = List.map_filter promptLine (enumerate 0 lines)"

text \<open>What the remote chat-completion call comes back with: a failure, or the content of
  the first candidate, if there is one.\<close>

datatype reply = Rejected error | Completed "string option"

text \<open>\<open>getEnhancedPromptFromNvidia\<close>, given the value of \<open>process.env.OPENAI_API_KEY\<close> and
  the reply of the remote service.\<close>

definition getEnhancedPromptFromNvidia :: "string option \<Rightarrow> reply \<Rightarrow> string \<Rightarrow> error + string" where
  "getEnhancedPromptFromNvidia apiKey remote userPrompt =
     (if apiKey = None \<or> apiKey = Some [] then
        Inl (Thrown ''OPENAI_API_KEY is not set (map NVIDIA_API -> OPENAI_API_KEY or set it directly).'')
      else
        (case remote of
           Rejected e \<Rightarrow> Inl e
         | Completed None \<Rightarrow> Inl (Thrown ''Empty response from NVIDIA model'')
         | Completed (Some enhanced) \<Rightarrow>
             if enhanced = [] \<or> trim enhanced = [] then Inl (Thrown ''Empty response from NVIDIA model'')
             else Inr (trim enhanced)))"

text \<open>\<open>String(err.message || err)\<close>\<close>

definition errText :: "error \<Rightarrow> string" where
  "errText e =
     (case e of
        IllegalLine \<Rightarrow> ''Illegal value for '' @ [backtick] @ ''line'' @ [backtick]
      | Thrown m \<Rightarrow> if m = [] then ''Error'' else m)"

section \<open>The state of the extension\<close>

datatype timer_key = DocTimer | Inflight nat

text \<open>
  The three module-level tables, and a log of the calls of the enhancement client
  (document key, line number, prompt), oldest first.
\<close>

record state =
  pendingTimers :: "string \<rightharpoonup> (timer_key \<rightharpoonup> bool)"
  enhancedDiagnosticsStore :: "string \<rightharpoonup> diagnostic list"
  diagnosticCollection :: "string \<rightharpoonup> diagnostic list"
  requests :: "(string \<times> nat \<times> string) list"

definition initial :: state where
  "initial = \<lparr>pendingTimers = Map.empty, enhancedDiagnosticsStore = Map.empty,
              diagnosticCollection = Map.empty, requests = []\<rparr>"

definition timersOf :: "state \<Rightarrow> string \<Rightarrow> (timer_key \<rightharpoonup> bool)" where
  "timersOf st docKey = (case pendingTimers st docKey of None \<Rightarrow> Map.empty | Some m \<Rightarrow> m)"

definition stored :: "state \<Rightarrow> string \<Rightarrow> diagnostic list" where
  "stored st docKey = (case enhancedDiagnosticsStore st docKey of None \<Rightarrow> [] | Some ds \<Rightarrow> ds)"

text \<open>The part of \<open>triggerEnhancementRequest\<close> that runs at once: up to the first
  \<open>await\<close>, where the client has been called and its result is pending.\<close>

definition triggerEnhancementRequest :: "state \<Rightarrow> document \<Rightarrow> nat \<Rightarrow> string \<Rightarrow> state" where
  "triggerEnhancementRequest st document lineNumber userPrompt =
     (let docKey = uri document;
          timersMap = timersOf st docKey;
          st1 = st\<lparr>pendingTimers := (pendingTimers st)(docKey \<mapsto> timersMap)\<rparr>
      in if timersMap (Inflight lineNumber) = Some True then st1
         else st1\<lparr>pendingTimers := (pendingTimers st)(docKey \<mapsto> timersMap(Inflight lineNumber \<mapsto> True)),
                  requests := requests st @ [(docKey, lineNumber, userPrompt)]\<rparr>)"

definition upsert :: "state \<Rightarrow> document \<Rightarrow> nat \<Rightarrow> diagnostic \<Rightarrow> state" where
  "upsert st document lineNumber diag =
     (let docKey = uri document;
          filtered = filter (\<lambda>d. startLine (rangeD d) \<noteq> lineNumber) (stored st docKey) @ [diag]
      in st\<lparr>enhancedDiagnosticsStore := (enhancedDiagnosticsStore st)(docKey \<mapsto> filtered),
            diagnosticCollection := (diagnosticCollection st)
               (docKey \<mapsto> filtered @ findIssuesWithRegex (Some document))\<rparr>)"

definition clearInflight :: "state \<Rightarrow> document \<Rightarrow> nat \<Rightarrow> state" where
  "clearInflight st document lineNumber =
     st\<lparr>pendingTimers := (pendingTimers st)
          (uri document \<mapsto> (timersOf st (uri document))(Inflight lineNumber := None))\<rparr>"

text \<open>
  The rest of \<open>triggerEnhancementRequest\<close>: what runs when the pending call of the client
  has come back with \<open>outcome\<close>. The editor's document is live, so \<open>document\<close> is the
  document as it is at that moment. The result is the new state and the error that leaves
  the function, if one does.
\<close>

definition catchBlock :: "state \<Rightarrow> document \<Rightarrow> nat \<Rightarrow> error \<Rightarrow> state \<times> error option" where
  "catchBlock st document lineNumber err =
     (case lineAt document lineNumber of
        Inl e \<Rightarrow> (st, Some e)
      | Inr text \<Rightarrow>
          (upsert st document lineNumber
             (Diagnostic (RangeOf lineNumber 0 lineNumber (max 1 (length text)))
                (''[NVIDIA] Failed to generate enhancement: '' @ errText err)
                Warning enhanced_prompt_failed),
           None))"

definition tryBlock :: "state \<Rightarrow> document \<Rightarrow> nat \<Rightarrow> error + string \<Rightarrow> state \<times> error option" where
  "tryBlock st document lineNumber outcome =
     (case outcome of
        Inl err \<Rightarrow> catchBlock st document lineNumber err
      | Inr enhanced \<Rightarrow>
          (case lineAt document lineNumber of
             Inl e \<Rightarrow> catchBlock st document lineNumber e
           | Inr text \<Rightarrow>
               (upsert st document lineNumber
                  (Diagnostic (RangeOf lineNumber 0 lineNumber (max 1 (length text)))
                     (''[NVIDIA] '' @ enhanced) Warning enhanced_prompt),
                None)))"

definition finishEnhancementRequest :: "state \<Rightarrow> document \<Rightarrow> nat \<Rightarrow> error + string \<Rightarrow> state \<times> error option" where
  "finishEnhancementRequest st document lineNumber outcome =
     (let (st1, escaped) = tryBlock st document lineNumber outcome
      in (clearInflight st1 document lineNumber, escaped))"

definition loadingDiag :: "nat \<Rightarrow> string \<Rightarrow> diagnostic" where
  "loadingDiag i line =
     Diagnostic (RangeOf i 0 i (max 1 (length line))) ''[NVIDIA] Loading enhanced prompt...''
       Information enhanced_prompt_loading"

text \<open>The loop of \<open>detectAndEnhancePrompts\<close> over the prompt lines: the diagnostics pushed
  so far and the state.\<close>

fun detectLoop :: "document \<Rightarrow> (nat \<times> string \<times> string) list \<Rightarrow> diagnostic list \<times> state
                     \<Rightarrow> diagnostic list \<times> state" where
  "detectLoop document [] acc = acc"
| "detectLoop document ((i, line, userPrompt) # ps) (newEnhancedDiags, st) =
     detectLoop document ps
       (newEnhancedDiags @ [loadingDiag i line],
        triggerEnhancementRequest st document i userPrompt)"

definition detectAndEnhancePrompts :: "state \<Rightarrow> document option \<Rightarrow> state" where
  "detectAndEnhancePrompts st document =
     (case document of
        None \<Rightarrow> st
      | Some d \<Rightarrow>
          if \<not> isTargetDoc (Some d) then st
          else
            (let lines = split_lines (getText d);
                 (newEnhancedDiags, st1) = detectLoop d (promptLines lines) ([], st)
             in st1\<lparr>enhancedDiagnosticsStore := (enhancedDiagnosticsStore st1)(uri d \<mapsto> newEnhancedDiags),
                    diagnosticCollection := (diagnosticCollection st1)
                      (uri d \<mapsto> newEnhancedDiags @ findIssuesWithRegex (Some d))\<rparr>))"

text \<open>
  \<open>runSecurityScanAndEnhanced\<close> suspends once, at \<open>await detectAndEnhancePrompts\<close>. The
  first function is what runs before, the second what runs after, on the state as it is
  then; the third is the whole pass when nothing else runs in between.
\<close>

definition runSecurityScanAndEnhanced_begin :: "state \<Rightarrow> document \<Rightarrow> diagnostic list \<times> state" where
  "runSecurityScanAndEnhanced_begin st d =
     (let securityDiags = findIssuesWithRegex (Some d)
      in (securityDiags, detectAndEnhancePrompts st (Some d)))"

definition runSecurityScanAndEnhanced_resume :: "state \<Rightarrow> document \<Rightarrow> diagnostic list \<Rightarrow> state" where
  "runSecurityScanAndEnhanced_resume st d securityDiags =
     (let enhancedDiags = stored st (uri d);
          merged = enhancedDiags @ securityDiags
      in st\<lparr>diagnosticCollection := (diagnosticCollection st)(uri d \<mapsto> merged)\<rparr>)"

definition runSecurityScanAndEnhanced :: "state \<Rightarrow> document option \<Rightarrow> state" where
  "runSecurityScanAndEnhanced st document =
     (case document of
        None \<Rightarrow> st
      | Some d \<Rightarrow>
          (let (securityDiags, st1) = runSecurityScanAndEnhanced_begin st d
           in runSecurityScanAndEnhanced_resume st1 d securityDiags))"

section \<open>The quick fix for a hardcoded secret\<close>

record text_edit =
  editUri :: string
  editRange :: range
  newText :: string

record codeAction =
  title :: string
  diagnostics :: "diagnostic list"
  edit :: "text_edit list"
  command :: "string \<times> string"

text \<open>\<open>/(api[_-]?key|apikey|secret|token)/i\<close>, \<open>/(['"`])([^'"`]+)\1/\<close> and
  \<open>/=['"`].*['"`]/\<close>\<close>

definition kindRegex :: regex where
  "kindRegex = Grp 1 secretKind"

definition quoteRegex :: regex where
  "quoteRegex = seqs [Grp 1 (Cls is_quote), Grp 2 (many1 not_quote), Backref 1]"

definition rhsRegex :: regex where
  "rhsRegex = seqs [chr CHR ''='', Cls is_quote, Star is_dot, Cls is_quote]"

text \<open>\<open>.replace(/[^A-Z0-9_]/g, '_')\<close>\<close>

definition sanitize :: "string \<Rightarrow> string" where
  "sanitize s = map (\<lambda>c. if c \<in> set ''ABCDEFGHIJKLMNOPQRSTUVWXYZ'' \<or> c \<in> set ''0123456789''
                               \<or> c = CHR ''_'' then c else CHR ''_'') s"

definition envNameOf :: "string \<Rightarrow> string" where
  "envNameOf line =
     (case match line kindRegex of
        None \<Rightarrow> ''SECRET''
      | Some secretMatch \<Rightarrow> sanitize (toUpperCase (group secretMatch 1)))"

definition fixEdit :: "document \<Rightarrow> range \<Rightarrow> string \<Rightarrow> text_edit" where
  "fixEdit document rng line =
     (let envName = envNameOf line
      in case match line quoteRegex of
           Some quoteMatch \<Rightarrow>
             (let quoteStart = (case indexOf line (whole quoteMatch) of Some k \<Rightarrow> int k | None \<Rightarrow> - 1);
                  quoteEnd = quoteStart + int (length (whole quoteMatch))
              in \<lparr>editUri = uri document,
                  editRange = RangeOf (startLine rng) (nat quoteStart) (startLine rng) (nat quoteEnd),
                  newText = ''process.env.'' @ envName\<rparr>)
         | None \<Rightarrow>
             \<lparr>editUri = uri document,
              editRange = RangeOf (startLine rng) 0 (startLine rng) (length line),
              newText = replace line rhsRegex (''= process.env.'' @ envName)\<rparr>)"

text \<open>\<open>HardcodedSecretCodeActionProvider.provideCodeActions\<close>, the loop over
  \<open>context.diagnostics\<close>.\<close>

fun provideCodeActions :: "document \<Rightarrow> range \<Rightarrow> diagnostic list \<Rightarrow> error + codeAction list" where
  "provideCodeActions document rng [] = Inr []"
| "provideCodeActions document rng (diag # rest) =
     (if code diag = hardcoded_secret then
        (case lineAt document (startLine rng) of
           Inl e \<Rightarrow> Inl e
         | Inr line \<Rightarrow>
             (case provideCodeActions document rng rest of
                Inl e \<Rightarrow> Inl e
              | Inr actions \<Rightarrow>
                  Inr (\<lparr>title = ''Replace literal with process.env reference'',
                        diagnostics = [diag],
                        edit = [fixEdit document rng line],
                        command = (''SafePrompt.runScan'', ''Rescan (SafePrompt)'')\<rparr> # actions)))
      else provideCodeActions document rng rest)"

text \<open>The editor applying an edit whose range lies within one line, to that line.\<close>

definition applyEdit :: "string \<Rightarrow> text_edit \<Rightarrow> string" where
  "applyEdit line e = take (startCol (editRange e)) line @ newText e @ drop (endCol (editRange e)) line"

section \<open>Predicates of the specification\<close>

text \<open>At most one stored enhancement diagnostic per line, for every document.\<close>

definition oneEnhancementPerLine :: "state \<Rightarrow> bool" where
  "oneEnhancementPerLine st = (\<forall>docKey. distinct (map (\<lambda>d. startLine (rangeD d)) (stored st docKey)))"

text \<open>A request for the line is in flight.\<close>

definition inFlight :: "state \<Rightarrow> string \<Rightarrow> nat \<Rightarrow> bool" where
  "inFlight st docKey n = (timersOf st docKey (Inflight n) = Some True)"

text \<open>
  The states the extension can be in: it starts with empty tables, and then scan passes
  (whole, or their two halves with other steps in between) and completions of pending
  requests follow one another in any order, on any documents and with any outcomes.
\<close>

inductive reachable :: "state \<Rightarrow> bool" where
  start: "reachable initial"
| scan: "reachable st \<Longrightarrow> reachable (runSecurityScanAndEnhanced st document)"
| scan_begin: "reachable st \<Longrightarrow> reachable (snd (runSecurityScanAndEnhanced_begin st d))"
| scan_resume: "reachable st \<Longrightarrow> reachable (runSecurityScanAndEnhanced_resume st d securityDiags)"
| finish: "reachable st \<Longrightarrow> reachable (fst (finishEnhancementRequest st d n outcome))"

text \<open>
  The words of a pattern that has neither anchors nor back references: what the pattern
  can match, whichever way backtracking finds it.
\<close>

fun plain :: "regex \<Rightarrow> bool" where
  "plain Eps = True"
| "plain (Cls p) = True"
| "plain (Seq a b) = (plain a \<and> plain b)"
| "plain (Alt a b) = (plain a \<and> plain b)"
| "plain (Star p) = True"
| "plain (Grp g r) = plain r"
| "plain (Backref g) = False"
| "plain Bol = False"
| "plain Eol = False"

fun groupfree :: "regex \<Rightarrow> bool" where
  "groupfree (Seq a b) = (groupfree a \<and> groupfree b)"
| "groupfree (Alt a b) = (groupfree a \<and> groupfree b)"
| "groupfree (Grp g r) = False"
| "groupfree r = True"

fun lang :: "regex \<Rightarrow> string set" where
  "lang Eps = {[]}"
| "lang (Cls p) = {[c] | c. p c}"
| "lang (Seq a b) = {u @ v | u v. u \<in> lang a \<and> v \<in> lang b}"
| "lang (Alt a b) = lang a \<union> lang b"
| "lang (Star p) = {w. list_all p w}"
| "lang (Grp g r) = lang r"
| "lang (Backref g) = {}"
| "lang Bol = {}"
| "lang Eol = {}"

text \<open>\<open>occurs L s k\<close>: a word of \<open>L\<close> starts at index \<open>k\<close> of \<open>s\<close>; \<open>first_at L s k\<close>: and none
  starts before.\<close>

definition occurs :: "string set \<Rightarrow> string \<Rightarrow> nat \<Rightarrow> bool" where
  "occurs L s k = (k \<le> length s \<and> (\<exists>w \<in> L. prefix w (drop k s)))"

definition first_at :: "string set \<Rightarrow> string \<Rightarrow> nat \<Rightarrow> bool" where
  "first_at L s k = (occurs L s k \<and> (\<forall>j < k. \<not> occurs L s j))"

text \<open>
  The text of a hardcoded secret: one of the five kind names in any letter case, optional
  whitespace, a colon or an equals sign, optional whitespace, a quote character, one or
  more characters that are not quote characters, and a quote character.
\<close>

definition secret_kinds :: "string list" where
  "secret_kinds = [''API_KEY'', ''APIKEY'', ''API-KEY'', ''SECRET'', ''TOKEN'']"

definition secret_literal :: "string \<Rightarrow> bool" where
  "secret_literal w = (\<exists>tok ws1 sep ws2 q1 body q2.
     w = tok @ ws1 @ [sep] @ ws2 @ [q1] @ body @ [q2] \<and>
     toUpperCase tok \<in> set secret_kinds \<and>
     list_all is_space ws1 \<and> (sep = CHR '':'' \<or> sep = CHR ''='') \<and> list_all is_space ws2 \<and>
     is_quote q1 \<and> body \<noteq> [] \<and> list_all not_quote body \<and> is_quote q2)"

text \<open>\<open>contains_ci kw s\<close>: the text \<open>s\<close> contains \<open>kw\<close> when letter case is ignored.\<close>

definition contains_ci :: "string \<Rightarrow> string \<Rightarrow> bool" where
  "contains_ci kw s =
     list_ex (\<lambda>k. prefix (toUpperCase kw) (toUpperCase (drop k s))) [0..<Suc (length s)]"

text \<open>
  A prompt line: optional whitespace, the comment marker \<open>//\<close> or \<open>#\<close>, optional whitespace,
  the word PROMPT in any letter case, optional whitespace, a colon, and then the text, a
  non-empty run of characters of the line, possibly after whitespace of its own.
\<close>

definition prompt_line :: "string \<Rightarrow> string \<Rightarrow> bool" where
  "prompt_line line body = (\<exists>ws1 mk ws2 kw ws3 ws4.
     line = ws1 @ mk @ ws2 @ kw @ ws3 @ '':'' @ ws4 @ body \<and>
     list_all is_space ws1 \<and> (mk = ''//'' \<or> mk = ''#'') \<and> list_all is_space ws2 \<and>
     toUpperCase kw = ''PROMPT'' \<and> list_all is_space ws3 \<and> list_all is_space ws4 \<and>
     body \<noteq> [] \<and> list_all is_dot body)"

text \<open>The prompt pattern without its anchors and its capture group: what comes before the
  captured text.\<close>

definition promptHead :: "regex list" where
  "promptHead = [Star is_space, Alt (lit ''//'') (lit ''#''), Star is_space,
                 lit_i ''PROMPT'', Star is_space, chr CHR '':'', Star is_space]"


text \<open>A quoted literal as the quick fix looks for it: a quote character, one or more
  characters that are not quote characters, and the same quote character again.\<close>

definition quoted_literal :: "string \<Rightarrow> bool" where
  "quoted_literal w = (\<exists>q body. w = [q] @ body @ [q] \<and> is_quote q \<and> body \<noteq> [] \<and> list_all not_quote body)"

text \<open>The name of a kind of secret, in any letter case.\<close>

definition secret_kind :: "string \<Rightarrow> bool" where
  "secret_kind tok = (toUpperCase tok \<in> set secret_kinds)"

text \<open>What the second pattern of the quick fix matches: an equals sign directly followed
  by a quote character, any characters of the line, and a quote character.\<close>

definition assigned_text :: "string \<Rightarrow> bool" where
  "assigned_text w = (\<exists>q1 mid q2. w = ''='' @ [q1] @ mid @ [q2] \<and>
     is_quote q1 \<and> list_all is_dot mid \<and> is_quote q2)"

text \<open>No quote character can be reached from the start of \<open>s\<close> over characters of the line.\<close>

definition no_quote_ahead :: "string \<Rightarrow> bool" where
  "no_quote_ahead s = (\<forall>mid q rest. s = mid @ [q] @ rest \<and> list_all is_dot mid \<longrightarrow> \<not> is_quote q)"

section \<open>The diagnostic store and the scheduler\<close>


lemma stored_trigger [simp]: "stored (triggerEnhancementRequest st d n p) k = stored st k"
  by (simp add: triggerEnhancementRequest_def stored_def Let_def)

lemma detectLoop_fst:
  "fst (detectLoop d ps (acc, st)) = acc @ map (\<lambda>(i, line, p). loadingDiag i line) ps"
  by (induction ps arbitrary: acc st) auto

lemma detectLoop_stored: "stored (snd (detectLoop d ps (acc, st))) k = stored st k"
  by (induction ps arbitrary: acc st) auto

lemma startLine_loadingDiag [simp]: "startLine (rangeD (loadingDiag i line)) = i"
  by (simp add: loadingDiag_def Diagnostic_def RangeOf_def)

lemma map_fst_map_filter_enumerate:
  assumes "\<And>i x y. f (i, x) = Some y \<Longrightarrow> fst y = i"
  shows "map fst (List.map_filter f (enumerate k xs)) = map fst (filter (\<lambda>p. f p \<noteq> None) (enumerate k xs))"
proof (induction xs arbitrary: k)
  case Nil
  then show ?case by (simp add: List.map_filter_simps)
next
  case (Cons x xs)
  show ?case
  proof (cases "f (k, x)")
    case None
    then show ?thesis using Cons by (simp add: List.map_filter_simps)
  next
    case (Some y)
    then show ?thesis using Cons assms[OF Some] by (simp add: List.map_filter_simps)
  qed
qed

lemma promptLine_fst: "promptLine (i, x) = Some y \<Longrightarrow> fst y = i"
  by (auto simp: promptLine_def split: option.splits)

lemma promptLines_indices:
  "map fst (promptLines lines) = map fst (filter (\<lambda>p. promptLine p \<noteq> None) (enumerate 0 lines))"
  unfolding promptLines_def by (rule map_fst_map_filter_enumerate) (erule promptLine_fst)

lemma sorted_promptLines: "sorted_wrt (<) (map fst (promptLines lines))"
proof -
  have "sorted_wrt (<) (map fst (enumerate 0 lines))"
    by (simp add: map_fst_enumerate)
  then have "sorted_wrt (\<lambda>x y. fst x < fst y) (enumerate 0 lines)"
    by (simp only: sorted_wrt_map)
  then have "sorted_wrt (\<lambda>x y. fst x < fst y) (filter (\<lambda>p. promptLine p \<noteq> None) (enumerate 0 lines))"
    by (rule sorted_wrt_filter)
  then have "sorted_wrt (<) (map fst (filter (\<lambda>p. promptLine p \<noteq> None) (enumerate 0 lines)))"
    by (simp only: sorted_wrt_map)
  then show ?thesis by (simp add: promptLines_indices)
qed

lemma distinct_promptLines: "distinct (map fst (promptLines lines))"
  using sorted_promptLines[of lines] by (simp add: strict_sorted_iff)

lemma stored_detect:
  "stored (detectAndEnhancePrompts st document) k =
     (case document of
        None \<Rightarrow> stored st k
      | Some d \<Rightarrow>
          if isTargetDoc (Some d) \<and> k = uri d
          then map (\<lambda>(i, line, p). loadingDiag i line) (promptLines (split_lines (getText d)))
          else stored st k)"
proof (cases document)
  case None
  then show ?thesis by (simp add: detectAndEnhancePrompts_def)
next
  case (Some d)
  obtain ds st1 where L: "detectLoop d (promptLines (split_lines (getText d))) ([], st) = (ds, st1)"
    by (cases "detectLoop d (promptLines (split_lines (getText d))) ([], st)")
  have ds: "ds = map (\<lambda>(i, line, p). loadingDiag i line) (promptLines (split_lines (getText d)))"
    using detectLoop_fst[of d "promptLines (split_lines (getText d))" "[]" st] L by simp
  have st1: "stored st1 k = stored st k"
    using detectLoop_stored[of d "promptLines (split_lines (getText d))" "[]" st k] L by simp
  show ?thesis using Some L ds st1
    by (auto simp: detectAndEnhancePrompts_def Let_def stored_def)
qed

lemma inv_detect:
  assumes "oneEnhancementPerLine st"
  shows "oneEnhancementPerLine (detectAndEnhancePrompts st document)"
proof -
  have "distinct (map (\<lambda>d. startLine (rangeD d)) (map (\<lambda>(i, line, p). loadingDiag i line) (promptLines ls)))" for ls
  proof -
    have "map (\<lambda>d. startLine (rangeD d)) (map (\<lambda>(i, line, p). loadingDiag i line) (promptLines ls)) = map fst (promptLines ls)"
      by (auto simp: comp_def split_def)
    then show ?thesis by (simp only: distinct_promptLines)
  qed
  then show ?thesis
    using assms unfolding oneEnhancementPerLine_def
    by (auto simp: stored_detect split: option.splits)
qed

lemma stored_upsert:
  "stored (upsert st d n dg) k =
     (if k = uri d then filter (\<lambda>x. startLine (rangeD x) \<noteq> n) (stored st k) @ [dg] else stored st k)"
  by (simp add: upsert_def Let_def stored_def)

lemma stored_clearInflight [simp]: "stored (clearInflight st d n) k = stored st k"
  by (simp add: clearInflight_def stored_def)

lemma inv_upsert:
  assumes "oneEnhancementPerLine st" "startLine (rangeD dg) = n"
  shows "oneEnhancementPerLine (upsert st d n dg)"
  using assms unfolding oneEnhancementPerLine_def
  by (auto simp: stored_upsert distinct_map_filter)

lemma inv_clearInflight:
  "oneEnhancementPerLine (clearInflight st d n) = oneEnhancementPerLine st"
  by (simp add: oneEnhancementPerLine_def)

lemma startLine_Diagnostic [simp]: "startLine (rangeD (Diagnostic (RangeOf l c l' c') m s k)) = l"
  by (simp add: Diagnostic_def RangeOf_def)

lemma inv_catchBlock:
  assumes "oneEnhancementPerLine st"
  shows "oneEnhancementPerLine (fst (catchBlock st d n err))"
  using assms by (auto simp: catchBlock_def inv_upsert split: sum.splits)

lemma inv_tryBlock:
  assumes "oneEnhancementPerLine st"
  shows "oneEnhancementPerLine (fst (tryBlock st d n outcome))"
  using assms by (auto simp: tryBlock_def inv_upsert inv_catchBlock split: sum.splits)

lemma inv_finish:
  assumes "oneEnhancementPerLine st"
  shows "oneEnhancementPerLine (fst (finishEnhancementRequest st d n outcome))"
  using inv_tryBlock[OF assms, of d n outcome]
  by (simp add: finishEnhancementRequest_def split_def Let_def inv_clearInflight)

lemma inv_trigger:
  "oneEnhancementPerLine (triggerEnhancementRequest st d n p) = oneEnhancementPerLine st"
  by (simp add: oneEnhancementPerLine_def)

lemma stored_resume [simp]: "stored (runSecurityScanAndEnhanced_resume st d ds) k = stored st k"
  by (simp add: runSecurityScanAndEnhanced_resume_def stored_def Let_def)

lemma inv_run:
  assumes "oneEnhancementPerLine st"
  shows "oneEnhancementPerLine (runSecurityScanAndEnhanced st document)"
  using inv_detect[OF assms, of document] assms
  by (auto simp: runSecurityScanAndEnhanced_def runSecurityScanAndEnhanced_begin_def Let_def
      oneEnhancementPerLine_def split: option.splits)

lemma inv_initial: "oneEnhancementPerLine initial"
  by (simp add: oneEnhancementPerLine_def stored_def initial_def)


lemma inv_reachable: "reachable st \<Longrightarrow> oneEnhancementPerLine st"
proof (induction rule: reachable.induct)
  case start
  show ?case by (rule inv_initial)
next
  case (scan st document)
  then show ?case by (simp add: inv_run)
next
  case (scan_begin st d)
  then show ?case by (simp add: runSecurityScanAndEnhanced_begin_def inv_detect)
next
  case (scan_resume st d securityDiags)
  then show ?case by (simp add: oneEnhancementPerLine_def)
next
  case (finish st d n outcome)
  then show ?case by (simp add: inv_finish)
qed

text \<open>
  Claim C7. In every state the extension can reach, the stored enhancement diagnostics of
  a document have pairwise different start lines; and every operation that writes the
  store keeps this: the wholesale replacement of a scan pass, and the
  filter-then-insert of a request that completes with success or with failure.
\<close>

theorem store_one_enhancement_per_line:
  "(reachable st \<longrightarrow> oneEnhancementPerLine st) \<and>
   (oneEnhancementPerLine st \<longrightarrow>
      oneEnhancementPerLine (detectAndEnhancePrompts st document) \<and>
      oneEnhancementPerLine (runSecurityScanAndEnhanced st document) \<and>
      oneEnhancementPerLine (fst (finishEnhancementRequest st d n (Inr enhanced))) \<and>
      oneEnhancementPerLine (fst (finishEnhancementRequest st d n (Inl err))))"
  by (simp add: inv_reachable inv_detect inv_run inv_finish)

theorem store_one_enhancement_per_line_witness:
  "(let d = \<lparr>uri = ''a.py'', languageId = ''python'',
              getText = ''# PROMPT: one'' @ [LF] @ ''# PROMPT: two''\<rparr>;
        st = fst (finishEnhancementRequest (runSecurityScanAndEnhanced initial (Some d)) d 0 (Inr ''better one''))
    in reachable st \<and> oneEnhancementPerLine st \<and>
       map (\<lambda>x. (startLine (rangeD x), code x)) (stored st ''a.py'')
         = [(1, enhanced_prompt_loading), (0, enhanced_prompt)] \<and>
       oneEnhancementPerLine (detectAndEnhancePrompts st (Some d)) \<and>
       oneEnhancementPerLine (runSecurityScanAndEnhanced st (Some d)) \<and>
       map (\<lambda>x. (startLine (rangeD x), code x)) (stored (runSecurityScanAndEnhanced st (Some d)) ''a.py'')
         = [(0, enhanced_prompt_loading), (1, enhanced_prompt_loading)] \<and>
       oneEnhancementPerLine (fst (finishEnhancementRequest st d 1 (Inr ''better two''))) \<and>
       map (\<lambda>x. (startLine (rangeD x), code x)) (stored (fst (finishEnhancementRequest st d 1 (Inr ''better two''))) ''a.py'')
         = [(0, enhanced_prompt), (1, enhanced_prompt)] \<and>
       oneEnhancementPerLine (fst (finishEnhancementRequest st d 1 (Inl (Thrown ''no network'')))) \<and>
       map (\<lambda>x. (startLine (rangeD x), code x))
           (stored (fst (finishEnhancementRequest st d 1 (Inl (Thrown ''no network'')))) ''a.py'')
         = [(0, enhanced_prompt), (1, enhanced_prompt_failed)])"
proof -
  let ?d = "\<lparr>uri = ''a.py'', languageId = ''python'',
              getText = ''# PROMPT: one'' @ [LF] @ ''# PROMPT: two''\<rparr>"
  let ?st = "fst (finishEnhancementRequest (runSecurityScanAndEnhanced initial (Some ?d)) ?d 0 (Inr ''better one''))"
  note t = store_one_enhancement_per_line[where st = ?st and document = "Some ?d" and d = ?d and n = 1
      and enhanced = "''better two''" and err = "Thrown ''no network''"]
  have r: "reachable ?st" by (intro reachable.finish reachable.scan reachable.start)
  have i: "oneEnhancementPerLine ?st" using t[THEN conjunct1] r by (rule mp)
  have k: "oneEnhancementPerLine (detectAndEnhancePrompts ?st (Some ?d)) \<and>
      oneEnhancementPerLine (runSecurityScanAndEnhanced ?st (Some ?d)) \<and>
      oneEnhancementPerLine (fst (finishEnhancementRequest ?st ?d 1 (Inr ''better two''))) \<and>
      oneEnhancementPerLine (fst (finishEnhancementRequest ?st ?d 1 (Inl (Thrown ''no network''))))"
    using t[THEN conjunct2] i by (rule mp)
  have 1: "map (\<lambda>x. (startLine (rangeD x), code x)) (stored ?st ''a.py'')
         = [(1, enhanced_prompt_loading), (0, enhanced_prompt)]" by code_simp
  have 2: "map (\<lambda>x. (startLine (rangeD x), code x)) (stored (runSecurityScanAndEnhanced ?st (Some ?d)) ''a.py'')
         = [(0, enhanced_prompt_loading), (1, enhanced_prompt_loading)]" by code_simp
  have 3: "map (\<lambda>x. (startLine (rangeD x), code x)) (stored (fst (finishEnhancementRequest ?st ?d 1 (Inr ''better two''))) ''a.py'')
         = [(0, enhanced_prompt), (1, enhanced_prompt)]" by code_simp
  have 4: "map (\<lambda>x. (startLine (rangeD x), code x))
           (stored (fst (finishEnhancementRequest ?st ?d 1 (Inl (Thrown ''no network'')))) ''a.py'')
         = [(0, enhanced_prompt), (1, enhanced_prompt_failed)]" by code_simp
  note k1 = k[THEN conjunct1] and k2 = k[THEN conjunct2, THEN conjunct1]
    and k3 = k[THEN conjunct2, THEN conjunct2, THEN conjunct1]
    and k4 = k[THEN conjunct2, THEN conjunct2, THEN conjunct2]
  show ?thesis unfolding Let_def by (intro conjI r i k1 k2 k3 k4 1 2 3 4)
qed

lemma timersOf_trigger:
  "timersOf (triggerEnhancementRequest st d n p) k =
     (if k = uri d then (timersOf st k)(Inflight n \<mapsto> True) else timersOf st k)"
  by (auto simp: triggerEnhancementRequest_def timersOf_def Let_def fun_eq_iff)

lemma trigger_inFlight_noop:
  assumes "inFlight st (uri d) n"
  shows "triggerEnhancementRequest st d n p = st"
proof -
  from assms obtain m where m: "pendingTimers st (uri d) = Some m"
    by (auto simp: inFlight_def timersOf_def split: option.splits)
  then have "(pendingTimers st)(uri d \<mapsto> timersOf st (uri d)) = pendingTimers st"
    by (auto simp: timersOf_def)
  then show ?thesis using assms
    by (simp add: triggerEnhancementRequest_def Let_def inFlight_def)
qed

lemma trigger_idle:
  assumes "\<not> inFlight st (uri d) n"
  shows "requests (triggerEnhancementRequest st d n p) = requests st @ [(uri d, n, p)]"
    and "inFlight (triggerEnhancementRequest st d n p) (uri d) n"
  using assms by (auto simp: triggerEnhancementRequest_def Let_def inFlight_def timersOf_def)

lemma timersOf_upsert [simp]: "timersOf (upsert st d n dg) k = timersOf st k"
  by (simp add: upsert_def timersOf_def Let_def)

lemma timersOf_catchBlock [simp]: "timersOf (fst (catchBlock st d n e)) k = timersOf st k"
  by (simp add: catchBlock_def split: sum.splits)

lemma timersOf_tryBlock [simp]: "timersOf (fst (tryBlock st d n outcome)) k = timersOf st k"
  by (simp add: tryBlock_def split: sum.splits)

lemma timersOf_clearInflight:
  "timersOf (clearInflight st d n) k =
     (if k = uri d then (timersOf st k)(Inflight n := None) else timersOf st k)"
  by (simp add: clearInflight_def timersOf_def)

lemma timersOf_finish:
  "timersOf (fst (finishEnhancementRequest st d n outcome)) k =
     (if k = uri d then (timersOf st k)(Inflight n := None) else timersOf st k)"
  by (simp add: finishEnhancementRequest_def split_def Let_def timersOf_clearInflight)

lemma finish_clears: "\<not> inFlight (fst (finishEnhancementRequest st d n outcome)) (uri d) n"
  by (simp add: inFlight_def timersOf_finish)

text \<open>
  Claim C5. When no request is in flight for a line of a document, a first call of
  \<open>triggerEnhancementRequest\<close> marks the line and calls the client once; a second call
  for the same document and line before the first completes changes nothing, so exactly
  one call of the client has been made; and the completion clears the mark, whether the
  call succeeded or failed.
\<close>

theorem duplicate_request_is_noop:
  assumes "\<not> inFlight st (uri d) n" and "uri d' = uri d"
  shows "inFlight (triggerEnhancementRequest st d n p) (uri d) n \<and>
         triggerEnhancementRequest (triggerEnhancementRequest st d n p) d' n p'
           = triggerEnhancementRequest st d n p \<and>
         requests (triggerEnhancementRequest (triggerEnhancementRequest st d n p) d' n p')
           = requests st @ [(uri d, n, p)] \<and>
         \<not> inFlight (fst (finishEnhancementRequest (triggerEnhancementRequest st d n p) d' n (Inr enhanced))) (uri d) n \<and>
         \<not> inFlight (fst (finishEnhancementRequest (triggerEnhancementRequest st d n p) d' n (Inl err))) (uri d) n"
proof -
  let ?st1 = "triggerEnhancementRequest st d n p"
  have f: "inFlight ?st1 (uri d') n" using trigger_idle(2)[OF assms(1)] assms(2) by simp
  have noop: "triggerEnhancementRequest ?st1 d' n p' = ?st1"
    by (rule trigger_inFlight_noop[OF f])
  show ?thesis
    using trigger_idle[OF assms(1), of p] noop finish_clears[of ?st1 d' n] assms(2) by simp
qed

theorem duplicate_request_is_noop_witness:
  "\<not> inFlight initial ''u'' 3 \<and>
   requests (triggerEnhancementRequest (triggerEnhancementRequest initial
       \<lparr>uri = ''u'', languageId = ''python'', getText = ''x''\<rparr> 3 ''p'')
       \<lparr>uri = ''u'', languageId = ''python'', getText = ''y''\<rparr> 3 ''q'') = [(''u'', 3, ''p'')]"
proof -
  have idle: "\<not> inFlight initial (uri \<lparr>uri = ''u'', languageId = ''python'', getText = ''x''\<rparr>) 3"
    by (simp add: inFlight_def timersOf_def initial_def)
  have same: "uri \<lparr>uri = ''u'', languageId = ''python'', getText = ''y''\<rparr>
      = uri \<lparr>uri = ''u'', languageId = ''python'', getText = ''x''\<rparr>"
    by simp
  have r: "requests initial = []" by (simp add: initial_def)
  from duplicate_request_is_noop[OF idle same, of "''p''" "''q''" "[]" IllegalLine, THEN conjunct2, THEN conjunct2, THEN conjunct1]
  have "requests (triggerEnhancementRequest (triggerEnhancementRequest initial
       \<lparr>uri = ''u'', languageId = ''python'', getText = ''x''\<rparr> 3 ''p'')
       \<lparr>uri = ''u'', languageId = ''python'', getText = ''y''\<rparr> 3 ''q'') = requests initial @ [(''u'', 3, ''p'')]"
    by simp
  then show ?thesis using idle by (simp add: r)
qed

lemma findIssues_language:
  "findIssuesWithRegex (Some (d\<lparr>languageId := l\<rparr>)) = findIssuesWithRegex (Some d)"
  by (simp add: findIssuesWithRegex_def)

lemma detect_not_target: "\<not> isTargetDoc (Some d) \<Longrightarrow> detectAndEnhancePrompts st (Some d) = st"
  by (simp add: detectAndEnhancePrompts_def)

lemma run_published:
  "diagnosticCollection (runSecurityScanAndEnhanced st (Some d)) (uri d) =
     Some (stored (detectAndEnhancePrompts st (Some d)) (uri d) @ findIssuesWithRegex (Some d))"
  by (simp add: runSecurityScanAndEnhanced_def runSecurityScanAndEnhanced_begin_def
      runSecurityScanAndEnhanced_resume_def Let_def)

text \<open>
  Claim C10. The security scan does not look at the language of the document, and a scan
  pass publishes its diagnostics for every document, after the stored enhancement
  diagnostics. For a document whose language is not one of the three supported kinds the
  pass skips prompt extraction and enhancement: no request is made and the store is left
  as it is.
\<close>

theorem security_scan_any_language:
  "findIssuesWithRegex (Some (d\<lparr>languageId := l\<rparr>)) = findIssuesWithRegex (Some d) \<and>
   (\<exists>enhancedDiags. diagnosticCollection (runSecurityScanAndEnhanced st (Some d)) (uri d)
        = Some (enhancedDiags @ findIssuesWithRegex (Some d))) \<and>
   (\<not> isTargetDoc (Some d) \<longrightarrow>
      detectAndEnhancePrompts st (Some d) = st \<and>
      requests (runSecurityScanAndEnhanced st (Some d)) = requests st \<and>
      enhancedDiagnosticsStore (runSecurityScanAndEnhanced st (Some d)) = enhancedDiagnosticsStore st \<and>
      diagnosticCollection (runSecurityScanAndEnhanced st (Some d)) (uri d)
        = Some (stored st (uri d) @ findIssuesWithRegex (Some d)))"
proof -
  have "\<not> isTargetDoc (Some d) \<Longrightarrow> runSecurityScanAndEnhanced st (Some d)
      = st\<lparr>diagnosticCollection := (diagnosticCollection st)(uri d \<mapsto> stored st (uri d) @ findIssuesWithRegex (Some d))\<rparr>"
    by (simp add: runSecurityScanAndEnhanced_def runSecurityScanAndEnhanced_begin_def
      runSecurityScanAndEnhanced_resume_def Let_def detect_not_target)
  then show ?thesis
    by (auto simp: findIssues_language run_published detect_not_target)
qed

theorem security_scan_any_language_witness:
  "\<not> isTargetDoc (Some \<lparr>uri = ''u'', languageId = ''rust'', getText = ''x''\<rparr>) \<and>
   diagnosticCollection (runSecurityScanAndEnhanced initial (Some \<lparr>uri = ''u'', languageId = ''rust'', getText = ''x''\<rparr>)) ''u''
     = Some (findIssuesWithRegex (Some \<lparr>uri = ''u'', languageId = ''rust'', getText = ''x''\<rparr>))"
  using security_scan_any_language[where d = "\<lparr>uri = ''u'', languageId = ''rust'', getText = ''x''\<rparr>" and st = initial]
  by (simp add: isTargetDoc_def stored_def initial_def)

section \<open>One line's enhancement diagnostic\<close>


lemma filter_key_distinct:
  assumes "distinct (map g xs)" "x \<in> set xs"
  shows "filter (\<lambda>y. g y = g x) xs = [x]"
  using assms
proof (induction xs)
  case Nil
  then show ?case by simp
next
  case (Cons a xs)
  show ?case
  proof (cases "a = x")
    case True
    have "filter (\<lambda>y. g y = g x) xs = []"
      using Cons.prems(1) True by (force simp: filter_empty_conv image_iff)
    then show ?thesis using True by simp
  next
    case False
    then have "x \<in> set xs" using Cons.prems(2) by simp
    moreover have "g a \<noteq> g x" using Cons.prems(1) \<open>x \<in> set xs\<close> by auto
    ultimately show ?thesis using Cons by simp
  qed
qed

lemma loading_slot:
  assumes "isTargetDoc (Some d)" and "(i, line, p) \<in> set (promptLines (split_lines (getText d)))"
  shows "filter (\<lambda>x. startLine (rangeD x) = i) (stored (detectAndEnhancePrompts st (Some d)) (uri d))
           = [loadingDiag i line]"
proof -
  let ?ps = "promptLines (split_lines (getText d))"
  have "filter (\<lambda>y. fst y = fst (i, line, p)) ?ps = [(i, line, p)]"
    by (rule filter_key_distinct[OF distinct_promptLines assms(2)])
  then have "filter (\<lambda>y. fst y = i) ?ps = [(i, line, p)]" by simp
  moreover have "filter (\<lambda>x. startLine (rangeD x) = i) (map (\<lambda>(i, line, p). loadingDiag i line) ?ps)
      = map (\<lambda>(i, line, p). loadingDiag i line) (filter (\<lambda>y. fst y = i) ?ps)"
    by (simp add: filter_map comp_def split_def)
  ultimately show ?thesis using assms(1) by (simp add: stored_detect)
qed

lemma finish_success:
  assumes "lineAt d n = Inr text"
  shows "finishEnhancementRequest st d n (Inr enhanced) =
     (clearInflight (upsert st d n (Diagnostic (RangeOf n 0 n (max 1 (length text)))
         (''[NVIDIA] '' @ enhanced) Warning enhanced_prompt)) d n, None)"
  using assms by (simp add: finishEnhancementRequest_def tryBlock_def)

lemma finish_failure:
  assumes "lineAt d n = Inr text"
  shows "finishEnhancementRequest st d n (Inl err) =
     (clearInflight (upsert st d n (Diagnostic (RangeOf n 0 n (max 1 (length text)))
         (''[NVIDIA] Failed to generate enhancement: '' @ errText err) Warning enhanced_prompt_failed)) d n, None)"
  using assms by (simp add: finishEnhancementRequest_def tryBlock_def catchBlock_def)

lemma finish_line_gone:
  assumes "lineAt d n = Inl e"
  shows "finishEnhancementRequest st d n outcome = (clearInflight st d n, Some e)"
  using assms by (cases outcome) (simp_all add: finishEnhancementRequest_def tryBlock_def catchBlock_def)

lemma slot_upsert:
  assumes "startLine (rangeD dg) = n"
  shows "filter (\<lambda>x. startLine (rangeD x) = n) (stored (upsert st d n dg) (uri d)) = [dg]"
  using assms by (simp add: stored_upsert filter_empty_conv)

lemma published_upsert:
  "diagnosticCollection (upsert st d n dg) (uri d) =
     Some (stored (upsert st d n dg) (uri d) @ findIssuesWithRegex (Some d))"
  by (simp add: upsert_def Let_def stored_def)

lemma published_clearInflight [simp]:
  "diagnosticCollection (clearInflight st d n) = diagnosticCollection st"
  by (simp add: clearInflight_def)

lemma codes_differ:
  "enhanced_prompt \<noteq> enhanced_prompt_loading" "enhanced_prompt_failed \<noteq> enhanced_prompt_loading"
  "enhanced_prompt \<noteq> enhanced_prompt_failed"
  by (simp_all add: enhanced_prompt_def enhanced_prompt_loading_def enhanced_prompt_failed_def)

text \<open>
  Claim C4, as amended. A scan pass over a supported document stores, for each prompt
  line, exactly one diagnostic: the Loading diagnostic with message
  \<open>[NVIDIA] Loading enhanced prompt...\<close>, severity Information and code
  \<open>enhanced_prompt_loading\<close>. When a request for a line completes and the document still
  has that line, the store then holds exactly one diagnostic for the line, whatever it
  held before: on success a Warning \<open>[NVIDIA] <text>\<close> with code \<open>enhanced_prompt\<close>, on
  failure a Warning \<open>[NVIDIA] Failed to generate enhancement: <reason>\<close> with code
  \<open>enhanced_prompt_failed\<close>.
\<close>

theorem enhancement_slot_transitions:
  assumes "isTargetDoc (Some d)"
    and "(i, line, p) \<in> set (promptLines (split_lines (getText d)))"
    and "lineAt d' i = Inr text"
  shows "filter (\<lambda>x. startLine (rangeD x) = i) (stored (detectAndEnhancePrompts st (Some d)) (uri d))
           = [Diagnostic (RangeOf i 0 i (max 1 (length line))) ''[NVIDIA] Loading enhanced prompt...''
                Information enhanced_prompt_loading]
       \<and> filter (\<lambda>x. startLine (rangeD x) = i)
            (stored (fst (finishEnhancementRequest st' d' i (Inr enhanced))) (uri d'))
           = [Diagnostic (RangeOf i 0 i (max 1 (length text))) (''[NVIDIA] '' @ enhanced)
                Warning enhanced_prompt]
       \<and> filter (\<lambda>x. startLine (rangeD x) = i)
            (stored (fst (finishEnhancementRequest st' d' i (Inl err))) (uri d'))
           = [Diagnostic (RangeOf i 0 i (max 1 (length text)))
                (''[NVIDIA] Failed to generate enhancement: '' @ errText err)
                Warning enhanced_prompt_failed]"
  using loading_slot[OF assms(1,2), of st]
  by (simp add: finish_success[OF assms(3)] finish_failure[OF assms(3)] slot_upsert loadingDiag_def)


theorem enhancement_slot_transitions_witness:
  "filter (\<lambda>x. startLine (rangeD x) = 0)
     (stored (detectAndEnhancePrompts initial
        (Some \<lparr>uri = ''u'', languageId = ''python'', getText = ''// PROMPT: x''\<rparr>)) ''u'')
     = [Diagnostic (RangeOf 0 0 0 (max 1 (length ''// PROMPT: x''))) ''[NVIDIA] Loading enhanced prompt...''
          Information enhanced_prompt_loading]"
proof -
  let ?d = "\<lparr>uri = ''u'', languageId = ''python'', getText = ''// PROMPT: x''\<rparr>"
  have t: "isTargetDoc (Some ?d)" by code_simp
  have p: "(0, ''// PROMPT: x'', ''x'') \<in> set (promptLines (split_lines (getText ?d)))"
    by code_simp
  have l: "lineAt ?d 0 = Inr ''// PROMPT: x''"
    by code_simp
  show ?thesis
    using enhancement_slot_transitions[OF t p l, of initial initial "[]" IllegalLine, THEN conjunct1] by simp
qed

text \<open>The message of the Loading diagnostic is not \<open>Loading enhanced prompt...\<close>.\<close>

theorem loading_message_counterexample:
  "map message (stored (detectAndEnhancePrompts initial
        (Some \<lparr>uri = ''u'', languageId = ''python'', getText = ''// PROMPT: x''\<rparr>)) ''u'')
     = [''[NVIDIA] Loading enhanced prompt...'']
   \<and> map message (stored (detectAndEnhancePrompts initial
        (Some \<lparr>uri = ''u'', languageId = ''python'', getText = ''// PROMPT: x''\<rparr>)) ''u'')
     \<noteq> [''Loading enhanced prompt...'']"
  by code_simp

text \<open>
  Claim C6 at a failing input. A request is in flight for line 1 of a two-line document;
  the user deletes that line; the remote call then fails. The handler of the failure
  asks the document for line 1, which raises: the error leaves the function, and the
  store still holds the Loading diagnostic and no \<open>enhanced_prompt_failed\<close> diagnostic.
\<close>

theorem failure_lost_when_line_is_gone:
  "snd (finishEnhancementRequest
          (detectAndEnhancePrompts initial
             (Some \<lparr>uri = ''u'', languageId = ''python'', getText = ''x'' @ [LF] @ ''// PROMPT: p''\<rparr>))
          \<lparr>uri = ''u'', languageId = ''python'', getText = ''x''\<rparr> 1
          (getEnhancedPromptFromNvidia (Some ''key'') (Rejected (Thrown ''socket hang up'')) ''p''))
     = Some IllegalLine
   \<and> map code (stored (fst (finishEnhancementRequest
          (detectAndEnhancePrompts initial
             (Some \<lparr>uri = ''u'', languageId = ''python'', getText = ''x'' @ [LF] @ ''// PROMPT: p''\<rparr>))
          \<lparr>uri = ''u'', languageId = ''python'', getText = ''x''\<rparr> 1
          (getEnhancedPromptFromNvidia (Some ''key'') (Rejected (Thrown ''socket hang up'')) ''p''))) ''u'')
     = [enhanced_prompt_loading]"
  by code_simp

section \<open>What the backtracking matcher finds\<close>


declare split_lines.simps [simp del]

lemma set_star_rests: "set (star_rests p s) = {r. \<exists>w. s = w @ r \<and> list_all p w}"
proof (induction s)
  case Nil
  then show ?case by auto
next
  case (Cons c cs)
  show ?case
  proof (cases "p c")
    case True
    have "{r. \<exists>w. c # cs = w @ r \<and> list_all p w} = {r. \<exists>w. cs = w @ r \<and> list_all p w} \<union> {c # cs}"
    proof (intro set_eqI iffI)
      fix r assume "r \<in> {r. \<exists>w. c # cs = w @ r \<and> list_all p w}"
      then obtain w where w: "c # cs = w @ r" "list_all p w" by auto
      show "r \<in> {r. \<exists>w. cs = w @ r \<and> list_all p w} \<union> {c # cs}"
      proof (cases w)
        case Nil
        then show ?thesis using w by simp
      next
        case (Cons a w')
        then show ?thesis using w by auto
      qed
    next
      fix r assume "r \<in> {r. \<exists>w. cs = w @ r \<and> list_all p w} \<union> {c # cs}"
      then consider w where "cs = w @ r" "list_all p w" | "r = c # cs" by auto
      then show "r \<in> {r. \<exists>w. c # cs = w @ r \<and> list_all p w}"
      proof cases
        case 1
        then have "c # cs = (c # w) @ r \<and> list_all p (c # w)" using True by simp
        then show ?thesis by blast
      next
        case 2
        then have "c # cs = [] @ r \<and> list_all p []" by simp
        then show ?thesis by blast
      qed
    qed
    then show ?thesis using Cons True by simp
  next
    case False
    have "{r. \<exists>w. c # cs = w @ r \<and> list_all p w} = {c # cs}"
    proof (intro set_eqI iffI)
      fix r assume "r \<in> {r. \<exists>w. c # cs = w @ r \<and> list_all p w}"
      then obtain w where w: "c # cs = w @ r" "list_all p w" by auto
      show "r \<in> {c # cs}"
      proof (cases w)
        case Nil
        then show ?thesis using w by simp
      next
        case (Cons a w')
        then show ?thesis using w False by auto
      qed
    next
      fix r assume "r \<in> {c # cs}"
      then have "c # cs = [] @ r \<and> list_all p []" by simp
      then show "r \<in> {r. \<exists>w. c # cs = w @ r \<and> list_all p w}" by blast
    qed
    then show ?thesis using False by simp
  qed
qed

lemma rmatch_rests:
  "plain r \<Longrightarrow> fst ` set (rmatch n r (s, caps)) = {rest. \<exists>w \<in> lang r. s = w @ rest}"
proof (induction r arbitrary: s caps)
  case Eps
  then show ?case by auto
next
  case (Cls p)
  then show ?case by (cases s) auto
next
  case (Seq a b)
  have a: "fst ` set (rmatch n a (s, caps)) = {rest. \<exists>w \<in> lang a. s = w @ rest}"
    using Seq by simp
  have b: "\<And>s' c'. fst ` set (rmatch n b (s', c')) = {rest. \<exists>w \<in> lang b. s' = w @ rest}"
    using Seq by simp
  show ?case
  proof (intro set_eqI iffI)
    fix rest assume "rest \<in> fst ` set (rmatch n (Seq a b) (s, caps))"
    then obtain c2 s1 c1 where 1: "(s1, c1) \<in> set (rmatch n a (s, caps))"
      and 2: "(rest, c2) \<in> set (rmatch n b (s1, c1))" by auto
    from 1 have "s1 \<in> fst ` set (rmatch n a (s, caps))" by force
    then obtain u where u: "u \<in> lang a" "s = u @ s1" using a by auto
    from 2 have "rest \<in> fst ` set (rmatch n b (s1, c1))" by force
    then obtain v where v: "v \<in> lang b" "s1 = v @ rest" using b by auto
    have "u @ v \<in> lang (Seq a b)" using u v by auto
    moreover have "s = (u @ v) @ rest" using u v by simp
    ultimately show "rest \<in> {rest. \<exists>w \<in> lang (Seq a b). s = w @ rest}" by blast
  next
    fix rest assume "rest \<in> {rest. \<exists>w \<in> lang (Seq a b). s = w @ rest}"
    then obtain u v where uv: "u \<in> lang a" "v \<in> lang b" "s = (u @ v) @ rest" by auto
    then have "v @ rest \<in> fst ` set (rmatch n a (s, caps))" using a by auto
    then obtain c1 where 1: "(v @ rest, c1) \<in> set (rmatch n a (s, caps))" by auto
    have "rest \<in> fst ` set (rmatch n b (v @ rest, c1))" using b uv by auto
    then obtain c2 where 2: "(rest, c2) \<in> set (rmatch n b (v @ rest, c1))" by auto
    from 1 2 have "(rest, c2) \<in> set (rmatch n (Seq a b) (s, caps))" by auto
    then show "rest \<in> fst ` set (rmatch n (Seq a b) (s, caps))" by force
  qed
next
  case (Alt a b)
  then show ?case by (auto simp: image_Un)
next
  case (Star p)
  show ?case by (auto simp: set_star_rests image_image)
next
  case (Grp g r)
  have "fst ` set (rmatch n (Grp g r) (s, caps)) = fst ` set (rmatch n r (s, caps))"
    by (force simp: image_iff split_def)
  then show ?case using Grp by simp
next
  case (Backref g)
  then show ?case by simp
next
  case Bol
  then show ?case by simp
next
  case Eol
  then show ?case by simp
qed

lemma rmatch_suffix:
  "(rest, c') \<in> set (rmatch n r (s, c)) \<Longrightarrow> suffix rest s"
proof (induction r arbitrary: s c rest c')
  case (Cls p)
  then show ?case by (cases s) (auto simp: suffix_Cons split: if_splits)
next
  case (Seq a b)
  then obtain s1 c1 where 1: "(s1, c1) \<in> set (rmatch n a (s, c))"
      and 2: "(rest, c') \<in> set (rmatch n b (s1, c1))" by auto
  from Seq.IH(1)[OF 1] Seq.IH(2)[OF 2] show ?case by (rule suffix_order.trans[rotated])
next
  case (Star p)
  then show ?case by (auto simp: set_star_rests suffix_def)
next
  case (Backref g)
  then show ?case by (auto simp: suffix_drop split: option.splits if_splits)
qed (auto split: if_splits)

lemma rmatch_caps:
  "(rest, c') \<in> set (rmatch n r (s, c)) \<Longrightarrow> c' g = Some v \<Longrightarrow> c g = Some v \<or> sublist v s"
proof (induction r arbitrary: s c rest c')
  case (Cls p)
  then show ?case by (cases s) (auto split: if_splits)
next
  case (Seq a b)
  then obtain s1 c1 where 1: "(s1, c1) \<in> set (rmatch n a (s, c))"
      and 2: "(rest, c') \<in> set (rmatch n b (s1, c1))" by auto
  from Seq.IH(2)[OF 2 Seq.prems(2)] have "c1 g = Some v \<or> sublist v s1" .
  then show ?case
  proof
    assume "c1 g = Some v"
    then show ?thesis using Seq.IH(1)[OF 1] by simp
  next
    assume "sublist v s1"
    moreover have "suffix s1 s" by (rule rmatch_suffix[OF 1])
    ultimately show ?thesis by (meson sublist_order.order.trans suffix_imp_sublist)
  qed
next
  case (Alt a b)
  from Alt.prems(1) have "(rest, c') \<in> set (rmatch n a (s, c)) \<or> (rest, c') \<in> set (rmatch n b (s, c))"
    by simp
  then show ?case using Alt.IH Alt.prems(2) by blast
next
  case (Grp h r)
  then obtain c1 where 1: "(rest, c1) \<in> set (rmatch n r (s, c))"
    and c': "c' = c1(h := Some (take (length s - length rest) s))" by auto
  show ?case
  proof (cases "g = h")
    case True
    then have "v = take (length s - length rest) s" using c' Grp.prems(2) by simp
    then have "prefix v s" by (simp add: take_is_prefix)
    then show ?thesis by (simp add: prefix_imp_sublist)
  next
    case False
    then have "c1 g = Some v" using c' Grp.prems(2) by simp
    then show ?thesis using Grp.IH[OF 1] by simp
  qed
next
  case (Backref h)
  then show ?case by (auto split: option.splits if_splits)
qed (auto split: if_splits)

lemma rmatch_groupfree:
  "groupfree r \<Longrightarrow> (rest, c') \<in> set (rmatch n r (s, c)) \<Longrightarrow> c' = c"
proof (induction r arbitrary: s c rest c')
  case (Cls p)
  then show ?case by (cases s) (auto split: if_splits)
next
  case (Seq a b)
  then obtain s1 c1 where 1: "(s1, c1) \<in> set (rmatch n a (s, c))"
      and 2: "(rest, c') \<in> set (rmatch n b (s1, c1))" by auto
  from Seq.IH(1)[OF _ 1] Seq.IH(2)[OF _ 2] Seq.prems(1) show ?case by simp
next
  case (Backref h)
  then show ?case by (auto split: option.splits if_splits)
qed (auto split: if_splits)


declare search.simps [simp del]

lemma occurs_Suc: "occurs L (c # cs) (Suc j) = occurs L cs j"
  by (simp add: occurs_def)

lemma occurs_Nil: "occurs L [] j = ([] \<in> L \<and> j = 0)"
  by (auto simp: occurs_def)

lemma occurs_0I: "w \<in> L \<Longrightarrow> s = w @ rest \<Longrightarrow> occurs L s 0"
  unfolding occurs_def by (auto intro!: bexI[of _ w])

lemma occurs_0_iff:
  assumes "\<And>s. fst ` set (rmatch n r (s, \<lambda>_. None)) = {rest. \<exists>w \<in> L. s = w @ rest}"
  shows "occurs L s 0 = (rmatch n r (s, \<lambda>_. None) \<noteq> [])"
proof
  assume "occurs L s 0"
  then obtain w rest where "w \<in> L" "s = w @ rest" by (auto simp: occurs_def prefix_def)
  then have "rest \<in> fst ` set (rmatch n r (s, \<lambda>_. None))" using assms by blast
  then show "rmatch n r (s, \<lambda>_. None) \<noteq> []" by auto
next
  assume "rmatch n r (s, \<lambda>_. None) \<noteq> []"
  then obtain x where "x \<in> set (rmatch n r (s, \<lambda>_. None))" by (cases "rmatch n r (s, \<lambda>_. None)") auto
  then have "fst x \<in> fst ` set (rmatch n r (s, \<lambda>_. None))" by blast
  then obtain w where "w \<in> L" "s = w @ fst x" using assms by blast
  then show "occurs L s 0" by (rule occurs_0I)
qed

lemma search_None:
  assumes R: "\<And>s. fst ` set (rmatch n r (s, \<lambda>_. None)) = {rest. \<exists>w \<in> L. s = w @ rest}"
  shows "search n r k s = None \<Longrightarrow> \<not> occurs L s j"
proof (induction s arbitrary: k j)
  case Nil
  then have "rmatch n r ([], \<lambda>_. None) = []"
    by (subst (asm) search.simps) (auto split: list.splits)
  then have "\<not> occurs L [] 0" using occurs_0_iff[OF R, of "[]"] by simp
  then show ?case by (auto simp: occurs_Nil)
next
  case (Cons c cs)
  from Cons.prems have e: "rmatch n r (c # cs, \<lambda>_. None) = []" and rec: "search n r (Suc k) cs = None"
    by (subst (asm) search.simps, auto split: list.splits)+
  show ?case
  proof (cases j)
    case 0
    then show ?thesis using occurs_0_iff[OF R, of "c # cs"] e by simp
  next
    case (Suc j')
    then show ?thesis using Cons.IH[OF rec, of j'] by (simp add: occurs_Suc)
  qed
qed

lemma search_Some:
  assumes R: "\<And>s. fst ` set (rmatch n r (s, \<lambda>_. None)) = {rest. \<exists>w \<in> L. s = w @ rest}"
  shows "search n r k s = Some m \<Longrightarrow>
    \<exists>j rest. index m = k + j \<and> first_at L s j \<and>
       (rest, groups m) \<in> set (rmatch n r (drop j s, \<lambda>_. None)) \<and>
       drop j s = whole m @ rest \<and> whole m \<in> L"
proof (induction s arbitrary: k)
  case Nil
  then obtain rest caps xs where e: "rmatch n r ([], \<lambda>_. None) = (rest, caps) # xs"
    and m: "m = \<lparr>index = k, whole = take (length ([]::string) - length rest) [], groups = caps\<rparr>"
    by (subst (asm) search.simps) (auto split: list.splits)
  have "rest \<in> fst ` set (rmatch n r ([], \<lambda>_. None))" using e by force
  then obtain w where w: "w \<in> L" "[] = w @ rest" using R by blast
  have "occurs L [] 0" using w by (rule occurs_0I)
  then have "first_at L [] 0" by (simp add: first_at_def)
  moreover have "(rest, groups m) \<in> set (rmatch n r (drop 0 [], \<lambda>_. None))" using e m by simp
  ultimately show ?case using m w by auto
next
  case (Cons c cs)
  show ?case
  proof (cases "rmatch n r (c # cs, \<lambda>_. None)")
    case Nil
    then have rec: "search n r (Suc k) cs = Some m"
      using Cons.prems by (subst (asm) search.simps) simp
    from Cons.IH[OF rec] obtain j rest where j: "index m = Suc k + j" "first_at L cs j"
      "(rest, groups m) \<in> set (rmatch n r (drop j cs, \<lambda>_. None))"
      "drop j cs = whole m @ rest" "whole m \<in> L" by blast
    have no0: "\<not> occurs L (c # cs) 0" using occurs_0_iff[OF R, of "c # cs"] Nil by simp
    have "first_at L (c # cs) (Suc j)"
      unfolding first_at_def
    proof (intro conjI allI impI)
      show "occurs L (c # cs) (Suc j)" using j(2) by (simp add: first_at_def occurs_Suc)
    next
      fix i assume "i < Suc j"
      show "\<not> occurs L (c # cs) i"
      proof (cases i)
        case 0
        then show ?thesis using no0 by simp
      next
        case (Suc i')
        then show ?thesis using j(2) \<open>i < Suc j\<close> by (simp add: first_at_def occurs_Suc)
      qed
    qed
    then show ?thesis using j by (intro exI[of _ "Suc j"] exI[of _ rest]) simp
  next
    case (Cons x xs)
    obtain rest caps where x: "x = (rest, caps)" by (cases x)
    have m: "m = \<lparr>index = k, whole = take (length (c # cs) - length rest) (c # cs), groups = caps\<rparr>"
      using Cons.prems Cons x by (subst (asm) search.simps) simp
    have "rest \<in> fst ` set (rmatch n r (c # cs, \<lambda>_. None))" using Cons x by force
    then obtain w where w: "w \<in> L" "c # cs = w @ rest" using R by blast
    have wh: "whole m = w" using m w(2) by simp
    have "occurs L (c # cs) 0" using w by (rule occurs_0I)
    then have "first_at L (c # cs) 0" by (simp add: first_at_def)
    moreover have "(rest, groups m) \<in> set (rmatch n r (drop 0 (c # cs), \<lambda>_. None))"
      using Cons x m by simp
    ultimately show ?thesis using m w wh by (intro exI[of _ 0] exI[of _ rest]) simp
  qed
qed

lemma first_at_unique: "first_at L s j \<Longrightarrow> first_at L s j' \<Longrightarrow> j = j'"
  by (metis first_at_def linorder_neqE_nat)

lemma indexOf_from_first:
  assumes "prefix t (drop j s)" "j \<le> length s" "\<And>i. i < j \<Longrightarrow> \<not> prefix t (drop i s)"
  shows "indexOf_from k s t = Some (k + j)"
  using assms
proof (induction s arbitrary: k j)
  case Nil
  then show ?case by simp
next
  case (Cons c cs)
  show ?case
  proof (cases j)
    case 0
    then show ?thesis using Cons.prems by simp
  next
    case (Suc j')
    have "\<not> prefix t (c # cs)" using Cons.prems(3)[of 0] Suc by simp
    moreover have "indexOf_from (Suc k) cs t = Some (Suc k + j')"
    proof (rule Cons.IH)
      show "prefix t (drop j' cs)" using Cons.prems(1) Suc by simp
      show "j' \<le> length cs" using Cons.prems(2) Suc by simp
      show "\<And>i. i < j' \<Longrightarrow> \<not> prefix t (drop i cs)" using Cons.prems(3)[of "Suc _"] Suc by simp
    qed
    ultimately show ?thesis using Suc by simp
  qed
qed

lemma match_Some:
  assumes R: "\<And>s. fst ` set (rmatch (length line) r (s, \<lambda>_. None)) = {rest. \<exists>w \<in> L. s = w @ rest}"
    and m: "match line r = Some m"
  shows "first_at L line (index m)" and "whole m \<in> L" and "prefix (whole m) (drop (index m) line)"
    and "\<exists>rest. (rest, groups m) \<in> set (rmatch (length line) r (drop (index m) line, \<lambda>_. None))
                \<and> drop (index m) line = whole m @ rest"
    and "indexOf line (whole m) = Some (index m)"
proof -
  from search_Some[OF R, of 0 line m] m obtain rest where
    j: "first_at L line (index m)"
      "(rest, groups m) \<in> set (rmatch (length line) r (drop (index m) line, \<lambda>_. None))"
      "drop (index m) line = whole m @ rest" "whole m \<in> L"
    by (auto simp: match_def)
  show "first_at L line (index m)" "whole m \<in> L" using j by simp_all
  show p: "prefix (whole m) (drop (index m) line)" using j(3) by simp
  show "\<exists>rest. (rest, groups m) \<in> set (rmatch (length line) r (drop (index m) line, \<lambda>_. None))
                \<and> drop (index m) line = whole m @ rest" using j by blast
  have le: "index m \<le> length line" using j(1) by (simp add: first_at_def occurs_def)
  have "\<not> prefix (whole m) (drop i line)" if "i < index m" for i
  proof
    assume "prefix (whole m) (drop i line)"
    then have "occurs L line i" using j(4) that le by (auto simp: occurs_def)
    then show False using j(1) that by (simp add: first_at_def)
  qed
  then show "indexOf line (whole m) = Some (index m)"
    unfolding indexOf_def using indexOf_from_first[OF p le, of 0] by simp
qed

lemma match_None:
  assumes R: "\<And>s. fst ` set (rmatch (length line) r (s, \<lambda>_. None)) = {rest. \<exists>w \<in> L. s = w @ rest}"
    and m: "match line r = None"
  shows "\<not> occurs L line j"
  using search_None[OF R, of 0 line j] m by (simp add: match_def)

lemma occurs_first:
  assumes "occurs L s k"
  shows "\<exists>j \<le> k. first_at L s j"
proof -
  define j where "j = (LEAST i. occurs L s i)"
  have "occurs L s j" unfolding j_def using assms by (rule LeastI)
  moreover have "j \<le> k" unfolding j_def using assms by (rule Least_le)
  moreover have "\<not> occurs L s i" if "i < j" for i using that not_less_Least unfolding j_def by blast
  ultimately show ?thesis by (auto simp: first_at_def)
qed

lemma match_occurs:
  assumes R: "\<And>s. fst ` set (rmatch (length line) r (s, \<lambda>_. None)) = {rest. \<exists>w \<in> L. s = w @ rest}"
    and o: "occurs L line k"
  shows "\<exists>m. match line r = Some m"
  using match_None[OF R, of k] o by (cases "match line r") auto

lemma test_plain_iff:
  assumes "plain r"
  shows "test r s = (\<exists>k. occurs (lang r) s k)"
proof -
  have R: "\<And>s'. fst ` set (rmatch (length s) r (s', \<lambda>_. None)) = {rest. \<exists>w \<in> lang r. s' = w @ rest}"
    by (rule rmatch_rests[OF assms])
  show ?thesis
  proof (cases "match s r")
    case None
    then show ?thesis using match_None[OF R None] by (simp add: test_def)
  next
    case (Some m)
    have "occurs (lang r) s (index m)" using match_Some(1)[OF R Some] by (simp add: first_at_def)
    then show ?thesis using Some by (auto simp: test_def)
  qed
qed


lemma lang_chr [simp]: "lang (chr c) = {[c]}"
  by (auto simp: chr_def)

lemma lang_chr_i [simp]: "lang (chr_i c) = {[x] | x. upper_char x = upper_char c}"
  by (auto simp: chr_i_def)

lemma lang_lit [simp]: "lang (lit s) = {s}"
  by (induction s) auto

lemma lang_lit_i [simp]: "lang (lit_i s) = {w. toUpperCase w = toUpperCase s}"
proof (induction s)
  case Nil
  then show ?case by (auto simp: toUpperCase_def)
next
  case (Cons c cs)
  show ?case
  proof (intro set_eqI iffI)
    fix w assume "w \<in> lang (lit_i (c # cs))"
    then show "w \<in> {w. toUpperCase w = toUpperCase (c # cs)}"
      using Cons by (auto simp: toUpperCase_def)
  next
    fix w assume "w \<in> {w. toUpperCase w = toUpperCase (c # cs)}"
    then obtain x xs where "w = x # xs" "upper_char x = upper_char c" "toUpperCase xs = toUpperCase cs"
      by (cases w) (auto simp: toUpperCase_def)
    then have w: "w = [x] @ xs" and x: "[x] \<in> lang (chr_i c)" and xs: "xs \<in> lang (lit_i cs)"
      using Cons by simp_all
    have "[x] @ xs \<in> {u @ v | u v. u \<in> lang (chr_i c) \<and> v \<in> lang (lit_i cs)}"
      using x xs by blast
    then show "w \<in> lang (lit_i (c # cs))" unfolding w by (simp only: lit_i.simps lang.simps)
  qed
qed

lemma lang_opt [simp]: "lang (opt r) = insert [] (lang r)"
  by (auto simp: opt_def)

lemma lang_many1 [simp]: "lang (many1 p) = {w. w \<noteq> [] \<and> list_all p w}"
proof (intro set_eqI iffI)
  fix w assume "w \<in> lang (many1 p)"
  then show "w \<in> {w. w \<noteq> [] \<and> list_all p w}" by (auto simp: many1_def)
next
  fix w assume "w \<in> {w. w \<noteq> [] \<and> list_all p w}"
  then obtain c cs where "w = [c] @ cs" "p c" "list_all p cs" by (cases w) auto
  then show "w \<in> lang (many1 p)" unfolding many1_def by (simp only: lang.simps) blast
qed

lemma plain_lit [simp]: "plain (lit s)"
  by (induction s) (auto simp: chr_def)

lemma plain_lit_i [simp]: "plain (lit_i s)"
  by (induction s) (auto simp: chr_i_def)

lemma plain_simps [simp]: "plain (chr c)" "plain (chr_i c)" "plain (many1 p)" "plain (opt r) = plain r"
  by (simp_all add: chr_def chr_i_def many1_def opt_def)

lemma groupfree_lit [simp]: "groupfree (lit s)"
  by (induction s) (auto simp: chr_def)

lemma groupfree_lit_i [simp]: "groupfree (lit_i s)"
  by (induction s) (auto simp: chr_i_def)

lemma groupfree_simps [simp]: "groupfree (chr c)" "groupfree (chr_i c)" "groupfree (many1 p)"
  "groupfree (opt r) = groupfree r"
  by (simp_all add: chr_def chr_i_def many1_def opt_def)

declare lit.simps [simp del] lit_i.simps [simp del]

text \<open>The scanner, line by line.\<close>

lemma filter_concat_enumerate:
  assumes "\<And>j x y. y \<in> set (f (j, x)) \<Longrightarrow> key y = j"
  shows "filter (\<lambda>y. P y \<and> key y = i) (concat (map f (enumerate k xs)))
           = (if k \<le> i \<and> i < k + length xs then filter P (f (i, xs ! (i - k))) else [])"
proof (induction xs arbitrary: k)
  case Nil
  then show ?case by auto
next
  case (Cons x xs)
  have here: "filter (\<lambda>y. P y \<and> key y = i) (f (k, x)) = (if i = k then filter P (f (k, x)) else [])"
  proof (cases "i = k")
    case True
    have "filter (\<lambda>y. P y \<and> key y = k) (f (k, x)) = filter P (f (k, x))"
      by (rule filter_cong) (auto dest: assms)
    then show ?thesis using True by simp
  next
    case False
    have "\<forall>y \<in> set (f (k, x)). \<not> (P y \<and> key y = i)" using False by (auto dest: assms)
    then show ?thesis using False by (simp add: filter_empty_conv)
  qed
  show ?case
  proof (cases "i = k")
    case True
    have "filter (\<lambda>y. P y \<and> key y = i) (concat (map f (enumerate (Suc k) xs))) = []"
      using Cons[of "Suc k"] True by simp
    then show ?thesis using here True by simp
  next
    case False
    have rest: "filter (\<lambda>y. P y \<and> key y = i) (concat (map f (enumerate (Suc k) xs)))
           = (if Suc k \<le> i \<and> i < Suc k + length xs then filter P (f (i, xs ! (i - Suc k))) else [])"
      by (rule Cons)
    have nth: "Suc k \<le> i \<Longrightarrow> (x # xs) ! (i - k) = xs ! (i - Suc k)"
      by (simp add: nth_Cons' Suc_le_eq)
    show ?thesis
    proof (cases "Suc k \<le> i \<and> i < Suc k + length xs")
      case True
      then show ?thesis using here False rest nth by simp
    next
      case False2: False
      have n: "\<not> (k \<le> i \<and> i < k + length (x # xs))" using False False2 by auto
      have r0: "filter (\<lambda>y. P y \<and> key y = i) (concat (map f (enumerate (Suc k) xs))) = []"
        using rest by (simp only: False2 if_False)
      have h0: "filter (\<lambda>y. P y \<and> key y = i) (f (k, x)) = []" using here False by simp
      have "filter (\<lambda>y. P y \<and> key y = i) (concat (map f (enumerate k (x # xs)))) = []"
        using r0 h0 by simp
      then show ?thesis by (simp only: n if_False)
    qed
  qed
qed

lemma set_concat_enumerate:
  "y \<in> set (concat (map f (enumerate 0 xs))) \<longleftrightarrow> (\<exists>i < length xs. y \<in> set (f (i, xs ! i)))"
  by (auto simp: in_set_enumerate_eq)

lemma secret_rule_key: "y \<in> set (secret_rule (j, x)) \<Longrightarrow> startLine (rangeD y) = j \<and> code y = hardcoded_secret"
  by (auto simp: secret_rule_def Diagnostic_def RangeOf_def Let_def split: option.splits)

lemma auth_rule_key: "y \<in> set (auth_rule ls (j, x)) \<Longrightarrow> startLine (rangeD y) = j \<and> code y = missing_auth"
  by (auto simp: auth_rule_def Diagnostic_def RangeOf_def Let_def split: option.splits if_splits)

lemma codes_scan: "hardcoded_secret \<noteq> missing_auth"
  by (simp add: hardcoded_secret_def missing_auth_def)

lemma secret_diags_of_line:
  "filter (\<lambda>y. code y = hardcoded_secret \<and> startLine (rangeD y) = i) (findIssuesWithRegex (Some d))
     = (if i < length (split_lines (getText d)) then secret_rule (i, split_lines (getText d) ! i) else [])"
proof -
  let ?ls = "split_lines (getText d)"
  have 1: "filter (\<lambda>y. code y = hardcoded_secret \<and> startLine (rangeD y) = i) (concat (map secret_rule (enumerate 0 ?ls)))
      = (if i < length ?ls then filter (\<lambda>y. code y = hardcoded_secret) (secret_rule (i, ?ls ! i)) else [])"
    using filter_concat_enumerate[of secret_rule "\<lambda>y. startLine (rangeD y)" "\<lambda>y. code y = hardcoded_secret" i 0 ?ls]
      secret_rule_key by simp
  have 2: "filter (\<lambda>y. code y = hardcoded_secret) (secret_rule (i, ?ls ! i)) = secret_rule (i, ?ls ! i)"
    using secret_rule_key by (simp add: filter_id_conv)
  have "code y \<noteq> hardcoded_secret" if "y \<in> set (concat (map (auth_rule ?ls) (enumerate 0 ?ls)))" for y
  proof -
    from that obtain j where "y \<in> set (auth_rule ?ls (j, ?ls ! j))"
      unfolding set_concat_enumerate by blast
    then show ?thesis using auth_rule_key codes_scan by metis
  qed
  then have 3: "filter (\<lambda>y. code y = hardcoded_secret \<and> startLine (rangeD y) = i) (concat (map (auth_rule ?ls) (enumerate 0 ?ls))) = []"
    unfolding filter_empty_conv by blast
  show ?thesis using 1 2 3 by (simp add: findIssuesWithRegex_def Let_def)
qed

lemma auth_diags_of_line:
  "filter (\<lambda>y. code y = missing_auth \<and> startLine (rangeD y) = i) (findIssuesWithRegex (Some d))
     = (if i < length (split_lines (getText d))
        then auth_rule (split_lines (getText d)) (i, split_lines (getText d) ! i) else [])"
proof -
  let ?ls = "split_lines (getText d)"
  have 1: "filter (\<lambda>y. code y = missing_auth \<and> startLine (rangeD y) = i) (concat (map (auth_rule ?ls) (enumerate 0 ?ls)))
      = (if i < length ?ls then filter (\<lambda>y. code y = missing_auth) (auth_rule ?ls (i, ?ls ! i)) else [])"
    using filter_concat_enumerate[of "auth_rule ?ls" "\<lambda>y. startLine (rangeD y)" "\<lambda>y. code y = missing_auth" i 0 ?ls]
      auth_rule_key by simp
  have 2: "filter (\<lambda>y. code y = missing_auth) (auth_rule ?ls (i, ?ls ! i)) = auth_rule ?ls (i, ?ls ! i)"
    using auth_rule_key by (simp add: filter_id_conv)
  have "code y \<noteq> missing_auth" if "y \<in> set (concat (map secret_rule (enumerate 0 ?ls)))" for y
  proof -
    from that obtain j where "y \<in> set (secret_rule (j, ?ls ! j))"
      unfolding set_concat_enumerate by blast
    then show ?thesis using secret_rule_key codes_scan by metis
  qed
  then have 3: "filter (\<lambda>y. code y = missing_auth \<and> startLine (rangeD y) = i) (concat (map secret_rule (enumerate 0 ?ls))) = []"
    unfolding filter_empty_conv by blast
  show ?thesis using 1 2 3 by (simp add: findIssuesWithRegex_def Let_def)
qed

lemma in_lang_Seq: "w \<in> lang (Seq a b) \<longleftrightarrow> (\<exists>u v. w = u @ v \<and> u \<in> lang a \<and> v \<in> lang b)"
  by auto

lemma in_lang_seqs_Cons:
  "w \<in> lang (seqs (r # rs)) \<longleftrightarrow> (\<exists>u v. w = u @ v \<and> u \<in> lang r \<and> v \<in> lang (seqs rs))"
  by auto

lemma in_lang_seqs_Nil: "w \<in> lang (seqs []) \<longleftrightarrow> w = []"
  by simp

lemma lang_seqs_ConsI: "u \<in> lang r \<Longrightarrow> v \<in> lang (seqs rs) \<Longrightarrow> u @ v \<in> lang (seqs (r # rs))"
  by auto

lemma lang_seqs_NilI: "[] \<in> lang (seqs [])"
  by simp

lemma lang_seqs_ConsE:
  assumes "w \<in> lang (seqs (r # rs))"
  obtains u v where "w = u @ v" "u \<in> lang r" "v \<in> lang (seqs rs)"
  using assms by auto

lemma seqs7E:
  assumes "w \<in> lang (seqs [r1, r2, r3, r4, r5, r6, r7])"
  obtains u1 u2 u3 u4 u5 u6 u7 where "w = u1 @ u2 @ u3 @ u4 @ u5 @ u6 @ u7"
    "u1 \<in> lang r1" "u2 \<in> lang r2" "u3 \<in> lang r3" "u4 \<in> lang r4" "u5 \<in> lang r5"
    "u6 \<in> lang r6" "u7 \<in> lang r7"
proof -
  from assms obtain u1 v1 where 1: "w = u1 @ v1" "u1 \<in> lang r1" "v1 \<in> lang (seqs [r2, r3, r4, r5, r6, r7])"
    by (rule lang_seqs_ConsE)
  from 1(3) obtain u2 v2 where 2: "v1 = u2 @ v2" "u2 \<in> lang r2" "v2 \<in> lang (seqs [r3, r4, r5, r6, r7])"
    by (rule lang_seqs_ConsE)
  from 2(3) obtain u3 v3 where 3: "v2 = u3 @ v3" "u3 \<in> lang r3" "v3 \<in> lang (seqs [r4, r5, r6, r7])"
    by (rule lang_seqs_ConsE)
  from 3(3) obtain u4 v4 where 4: "v3 = u4 @ v4" "u4 \<in> lang r4" "v4 \<in> lang (seqs [r5, r6, r7])"
    by (rule lang_seqs_ConsE)
  from 4(3) obtain u5 v5 where 5: "v4 = u5 @ v5" "u5 \<in> lang r5" "v5 \<in> lang (seqs [r6, r7])"
    by (rule lang_seqs_ConsE)
  from 5(3) obtain u6 v6 where 6: "v5 = u6 @ v6" "u6 \<in> lang r6" "v6 \<in> lang (seqs [r7])"
    by (rule lang_seqs_ConsE)
  from 6(3) obtain u7 v7 where 7: "v6 = u7 @ v7" "u7 \<in> lang r7" "v7 \<in> lang (seqs [])"
    by (rule lang_seqs_ConsE)
  have "v7 = []" using 7(3) by simp
  then have "w = u1 @ u2 @ u3 @ u4 @ u5 @ u6 @ u7"
    by (simp only: 1(1) 2(1) 3(1) 4(1) 5(1) 6(1) 7(1) append_Nil2)
  then show thesis using 1(2) 2(2) 3(2) 4(2) 5(2) 6(2) 7(2) by (rule that)
qed

lemma seqs7I:
  assumes "u1 \<in> lang r1" "u2 \<in> lang r2" "u3 \<in> lang r3" "u4 \<in> lang r4" "u5 \<in> lang r5"
    "u6 \<in> lang r6" "u7 \<in> lang r7"
  shows "u1 @ u2 @ u3 @ u4 @ u5 @ u6 @ u7 \<in> lang (seqs [r1, r2, r3, r4, r5, r6, r7])"
proof -
  have "u1 @ u2 @ u3 @ u4 @ u5 @ u6 @ u7 @ [] \<in> lang (seqs [r1, r2, r3, r4, r5, r6, r7])"
    by (intro lang_seqs_ConsI assms lang_seqs_NilI)
  then show ?thesis by (simp only: append_Nil2)
qed



lemma concat_map_assoc:
  "concat (map g (concat (map f xs))) = concat (map (\<lambda>x. concat (map g (f x))) xs)"
  by (induction xs) simp_all

lemma rmatch_seqs_append:
  "rmatch n (seqs (xs @ ys)) st = rmatch n (Seq (seqs xs) (seqs ys)) st"
proof (induction xs arbitrary: st)
  case Nil
  then show ?case by simp
next
  case (Cons x xs)
  have "rmatch n (seqs ((x # xs) @ ys)) st
      = concat (map (rmatch n (seqs (xs @ ys))) (rmatch n x st))" by simp
  also have "\<dots> = concat (map (\<lambda>st'. concat (map (rmatch n (seqs ys)) (rmatch n (seqs xs) st'))) (rmatch n x st))"
  proof -
    have "rmatch n (seqs (xs @ ys)) = (\<lambda>st'. concat (map (rmatch n (seqs ys)) (rmatch n (seqs xs) st')))"
      by (rule ext) (simp add: Cons)
    then show ?thesis by (simp only:)
  qed
  also have "\<dots> = concat (map (rmatch n (seqs ys)) (concat (map (rmatch n (seqs xs)) (rmatch n x st))))"
    by (simp only: concat_map_assoc)
  finally show ?case by simp
qed

lemma set_rmatch_Seq:
  "set (rmatch n (Seq a b) st) = (\<Union>x \<in> set (rmatch n a st). set (rmatch n b x))"
  by simp

lemma set_rmatch_groupfree:
  assumes "plain r" "groupfree r"
  shows "set (rmatch n r (s, c)) = {(rest, c) | rest. \<exists>w \<in> lang r. s = w @ rest}"
proof (intro set_eqI iffI)
  fix x assume x: "x \<in> set (rmatch n r (s, c))"
  obtain rest c' where xe: "x = (rest, c')" by (cases x)
  have "c' = c" using rmatch_groupfree[OF assms(2)] x xe by blast
  moreover have "rest \<in> fst ` set (rmatch n r (s, c))" using x xe by force
  ultimately show "x \<in> {(rest, c) | rest. \<exists>w \<in> lang r. s = w @ rest}"
    using rmatch_rests[OF assms(1), of n s c] xe by auto
next
  fix x assume "x \<in> {(rest, c) | rest. \<exists>w \<in> lang r. s = w @ rest}"
  then obtain rest where xe: "x = (rest, c)" and "\<exists>w \<in> lang r. s = w @ rest" by blast
  then have "rest \<in> fst ` set (rmatch n r (s, c))" using rmatch_rests[OF assms(1), of n s c] by blast
  then obtain c' where in_set: "(rest, c') \<in> set (rmatch n r (s, c))" by auto
  then have "c' = c" by (rule rmatch_groupfree[OF assms(2)])
  then show "x \<in> set (rmatch n r (s, c))" using in_set xe by simp
qed

lemma set_rmatch_Grp_groupfree:
  assumes "plain r" "groupfree r"
  shows "set (rmatch n (Grp g r) (s, c)) = {(rest, c(g := Some w)) | rest w. w \<in> lang r \<and> s = w @ rest}"
proof -
  have "set (rmatch n (Grp g r) (s, c))
      = (\<lambda>(s', c'). (s', c'(g := Some (take (length s - length s') s)))) ` set (rmatch n r (s, c))"
    by simp
  also have "\<dots> = (\<lambda>(s', c'). (s', c'(g := Some (take (length s - length s') s))))
        ` {(rest, c) | rest. \<exists>w \<in> lang r. s = w @ rest}"
    by (simp only: set_rmatch_groupfree[OF assms])
  also have "\<dots> = {(rest, c(g := Some w)) | rest w. w \<in> lang r \<and> s = w @ rest}"
    by (auto simp: image_iff)
  finally show ?thesis .
qed



section \<open>The hardcoded-secret rule\<close>


lemma upper_char_fixed:
  "upper_char CHR ''_'' = CHR ''_''" "upper_char CHR ''-'' = CHR ''-''"
  by (simp_all add: upper_char_def)

lemma upper_char_us: "upper_char c = CHR ''_'' \<longleftrightarrow> c = CHR ''_''"
  by (auto simp: upper_char_def split: if_splits)

lemma upper_char_dash: "upper_char c = CHR ''-'' \<longleftrightarrow> c = CHR ''-''"
  by (auto simp: upper_char_def split: if_splits)

lemma toUpperCase_append [simp]: "toUpperCase (u @ v) = toUpperCase u @ toUpperCase v"
  by (simp add: toUpperCase_def)

lemma toUpperCase_eq_append:
  "toUpperCase w = a @ b \<longleftrightarrow> (\<exists>u v. w = u @ v \<and> toUpperCase u = a \<and> toUpperCase v = b)"
  unfolding toUpperCase_def by (auto simp: map_eq_append_conv)

lemma toUpperCase_single: "toUpperCase w = [x] \<longleftrightarrow> (\<exists>c. w = [c] \<and> upper_char c = x)"
  unfolding toUpperCase_def by (cases w) auto

lemma api_key_words:
  "lang (seqs [lit_i ''api'', opt (Cls (\<lambda>c. c = CHR ''_'' \<or> c = CHR ''-'')), lit_i ''key''])
     = {tok. toUpperCase tok = ''API_KEY'' \<or> toUpperCase tok = ''API-KEY'' \<or> toUpperCase tok = ''APIKEY''}"
    (is "?L = ?R")
proof (intro set_eqI iffI)
  fix w assume "w \<in> ?L"
  then obtain a s b where w: "w = a @ s @ b" and a0: "a \<in> lang (lit_i ''api'')"
    and s0: "s \<in> lang (opt (Cls (\<lambda>c. c = CHR ''_'' \<or> c = CHR ''-'')))" and b0: "b \<in> lang (lit_i ''key'')"
    unfolding in_lang_seqs_Cons in_lang_seqs_Nil by (auto simp only: append_Nil2)
  have a: "toUpperCase a = toUpperCase ''api''" using a0 by simp
  have s: "s = [] \<or> s = ''_'' \<or> s = ''-''" using s0 by auto
  have b: "toUpperCase b = toUpperCase ''key''" using b0 by simp
  have A: "toUpperCase ''api'' = ''API''" and K: "toUpperCase ''key'' = ''KEY''"
    by (simp_all add: toUpperCase_def upper_char_def)
  from s show "w \<in> ?R"
    using w a b A K by (auto simp: toUpperCase_def upper_char_fixed)
next
  fix w assume "w \<in> ?R"
  have A: "toUpperCase ''api'' = ''API''" and K: "toUpperCase ''key'' = ''KEY''"
    by (simp_all add: toUpperCase_def upper_char_def)
  have "\<exists>a s b. w = a @ s @ b \<and> toUpperCase a = ''API'' \<and> (s = [] \<or> s = ''_'' \<or> s = ''-'') \<and> toUpperCase b = ''KEY''"
  proof -
    from \<open>w \<in> ?R\<close> consider "toUpperCase w = ''API'' @ ''_'' @ ''KEY''" | "toUpperCase w = ''API'' @ ''-'' @ ''KEY''"
      | "toUpperCase w = ''API'' @ ''KEY''" by auto
    then show ?thesis
    proof cases
      case 1
      then obtain a s b where f: "w = a @ s @ b" "toUpperCase a = ''API''" "toUpperCase b = ''KEY''"
        and "toUpperCase s = ''_''"
        unfolding toUpperCase_eq_append by force
      then have "s = ''_''" by (auto simp: toUpperCase_single upper_char_us)
      then show ?thesis using f by blast
    next
      case 2
      then obtain a s b where f: "w = a @ s @ b" "toUpperCase a = ''API''" "toUpperCase b = ''KEY''"
        and "toUpperCase s = ''-''"
        unfolding toUpperCase_eq_append by force
      then have "s = ''-''" by (auto simp: toUpperCase_single upper_char_dash)
      then show ?thesis using f by blast
    next
      case 3
      then obtain a b where "w = a @ [] @ b" "toUpperCase a = ''API''" "toUpperCase b = ''KEY''"
        unfolding toUpperCase_eq_append by auto
      then show ?thesis by blast
    qed
  qed
  then obtain a s b where w: "w = a @ s @ b" and a: "toUpperCase a = ''API''"
    and s: "s = [] \<or> s = ''_'' \<or> s = ''-''" and b: "toUpperCase b = ''KEY''" by blast
  have 1: "a \<in> lang (lit_i ''api'')" using a A by simp
  have 2: "s \<in> lang (opt (Cls (\<lambda>c. c = CHR ''_'' \<or> c = CHR ''-'')))" using s by auto
  have 3: "b \<in> lang (lit_i ''key'')" using b K by simp
  have "a @ s @ b @ [] \<in> ?L"
    by (intro lang_seqs_ConsI 1 2 3 lang_seqs_NilI)
  then show "w \<in> ?L" using w by simp
qed

lemma kind_words: "lang secretKind = {tok. toUpperCase tok \<in> set secret_kinds}"
proof -
  have U: "toUpperCase ''apikey'' = ''APIKEY''" "toUpperCase ''secret'' = ''SECRET''"
    "toUpperCase ''token'' = ''TOKEN''"
    by (simp_all add: toUpperCase_def upper_char_def)
  show ?thesis
    unfolding secretKind_def alts.simps lang.simps api_key_words lang_lit_i U secret_kinds_def
    by auto
qed


lemma secret_literalI:
  assumes "toUpperCase tok \<in> set secret_kinds" "list_all is_space ws1"
    "sep = CHR '':'' \<or> sep = CHR ''=''" "list_all is_space ws2"
    "is_quote q1" "body \<noteq> []" "list_all not_quote body" "is_quote q2"
  shows "secret_literal (tok @ ws1 @ [sep] @ ws2 @ [q1] @ body @ [q2])"
  unfolding secret_literal_def
  apply (rule exI[of _ tok], rule exI[of _ ws1], rule exI[of _ sep], rule exI[of _ ws2],
      rule exI[of _ q1], rule exI[of _ body], rule exI[of _ q2])
  apply (intro conjI refl assms)
  done

lemma secret_words: "lang secretRegex = Collect secret_literal"
proof (intro set_eqI iffI)
  fix w assume "w \<in> lang secretRegex"
  then obtain tok ws1 c1 ws2 c2 body c3 where w: "w = tok @ ws1 @ c1 @ ws2 @ c2 @ body @ c3"
    and tok: "tok \<in> lang (Grp 1 secretKind)" and ws1: "ws1 \<in> lang (Star is_space)"
    and c1: "c1 \<in> lang (Cls (\<lambda>c. c = CHR '':'' \<or> c = CHR ''=''))" and ws2: "ws2 \<in> lang (Star is_space)"
    and c2: "c2 \<in> lang (Cls is_quote)" and body: "body \<in> lang (Grp 2 (many1 not_quote))"
    and c3: "c3 \<in> lang (Cls is_quote)"
    unfolding secretRegex_def by (rule seqs7E)
  from c1 obtain sep where sep: "c1 = [sep]" "sep = CHR '':'' \<or> sep = CHR ''=''" by auto
  from c2 obtain q1 where q1: "c2 = [q1]" "is_quote q1" by auto
  from c3 obtain q2 where q2: "c3 = [q2]" "is_quote q2" by auto
  have "secret_literal (tok @ ws1 @ [sep] @ ws2 @ [q1] @ body @ [q2])"
  proof (rule secret_literalI)
    show "toUpperCase tok \<in> set secret_kinds" using tok by (simp add: kind_words)
    show "list_all is_space ws1" "list_all is_space ws2" using ws1 ws2 by simp_all
    show "body \<noteq> []" "list_all not_quote body" using body by simp_all
  qed (rule sep(2) q1(2) q2(2))+
  then show "w \<in> Collect secret_literal" by (simp only: w sep(1) q1(1) q2(1) mem_Collect_eq)
next
  fix w assume "w \<in> Collect secret_literal"
  then have "secret_literal w" by simp
  then obtain tok ws1 sep ws2 q1 body q2 where w: "w = tok @ ws1 @ [sep] @ ws2 @ [q1] @ body @ [q2]"
    and a: "toUpperCase tok \<in> set secret_kinds" "list_all is_space ws1"
      "sep = CHR '':'' \<or> sep = CHR ''=''" "list_all is_space ws2"
      "is_quote q1" "body \<noteq> []" "list_all not_quote body" "is_quote q2"
    unfolding secret_literal_def by (elim exE conjE)
  have "tok @ ws1 @ [sep] @ ws2 @ [q1] @ body @ [q2] \<in> lang secretRegex"
    unfolding secretRegex_def
  proof (rule seqs7I)
    show "tok \<in> lang (Grp 1 secretKind)" using a(1) by (simp add: kind_words)
    show "ws1 \<in> lang (Star is_space)" using a(2) by simp
    show "[sep] \<in> lang (Cls (\<lambda>c. c = CHR '':'' \<or> c = CHR ''=''))" using a(3) by simp
    show "ws2 \<in> lang (Star is_space)" using a(4) by simp
    show "[q1] \<in> lang (Cls is_quote)" using a(5) by simp
    show "body \<in> lang (Grp 2 (many1 not_quote))" using a(6,7) by simp
    show "[q2] \<in> lang (Cls is_quote)" using a(8) by simp
  qed
  then show "w \<in> lang secretRegex" by (simp only: w)
qed

lemma plain_secretKind: "plain secretKind"
  by (simp add: secretKind_def)

lemma plain_secretRegex: "plain secretRegex"
  by (simp add: secretRegex_def plain_secretKind)

lemma secret_recognised:
  "fst ` set (rmatch n secretRegex (s, \<lambda>_. None)) = {rest. \<exists>w \<in> Collect secret_literal. s = w @ rest}"
  using rmatch_rests[OF plain_secretRegex] by (simp only: secret_words)

lemma occurs_at_decomposition:
  assumes "s = pre @ w @ post" "w \<in> L"
  shows "occurs L s (length pre)"
  unfolding occurs_def using assms by (auto intro!: bexI[of _ w])

lemma first_at_le: "first_at L s k \<Longrightarrow> occurs L s j \<Longrightarrow> k \<le> j"
  by (meson first_at_def not_le_imp_less)

lemma secret_rule_Some:
  assumes "match line secretRegex = Some m"
  shows "secret_rule (i, line) =
     [Diagnostic (RangeOf i (index m) i (length line))
        ''Hardcoded secret detected. Consider using environment variables.'' Warning hardcoded_secret]"
  using assms match_Some(5)[OF secret_recognised assms]
  by (simp add: secret_rule_def)

text \<open>
  Claim C1, as amended. If a line of the document contains one of the kind names api_key,
  apikey, api-key, secret, token in any letter case, followed by a colon or an equals sign
  (whitespace allowed around it), a quote character (single, double or backtick), one or
  more characters that are not quote characters, and a quote character, then the scan
  returns for that line exactly one diagnostic with code \<open>hardcoded_secret\<close>: a Warning with
  the message below, from the column where the first such text of the line starts to the
  end of the line.
\<close>

theorem hardcoded_secret_reported:
  assumes "i < length (split_lines (getText d))"
    and "split_lines (getText d) ! i = pre @ w @ post"
    and "secret_literal w"
  shows "\<exists>k. k \<le> length pre \<and> first_at (Collect secret_literal) (split_lines (getText d) ! i) k \<and>
           filter (\<lambda>x. code x = hardcoded_secret \<and> startLine (rangeD x) = i) (findIssuesWithRegex (Some d))
             = [Diagnostic (RangeOf i k i (length (split_lines (getText d) ! i)))
                  ''Hardcoded secret detected. Consider using environment variables.''
                  Warning hardcoded_secret]"
proof -
  let ?line = "split_lines (getText d) ! i"
  have o: "occurs (Collect secret_literal) ?line (length pre)"
    using assms(2,3) by (intro occurs_at_decomposition[of _ _ w post]) simp_all
  then obtain m where m: "match ?line secretRegex = Some m"
    using match_occurs[OF secret_recognised] by blast
  have f: "first_at (Collect secret_literal) ?line (index m)"
    by (rule match_Some(1)[OF secret_recognised m])
  have le: "index m \<le> length pre" by (rule first_at_le[OF f o])
  show ?thesis
    using f le assms(1) by (intro exI[of _ "index m"]) (simp add: secret_diags_of_line secret_rule_Some[OF m])
qed

theorem hardcoded_secret_reported_witness:
  "\<exists>k. filter (\<lambda>x. code x = hardcoded_secret \<and> startLine (rangeD x) = 0)
           (findIssuesWithRegex (Some \<lparr>uri = ''u'', languageId = ''python'', getText = ''token='' @ [dquote] @ ''x'' @ [dquote]\<rparr>))
        = [Diagnostic (RangeOf 0 k 0 (length (split_lines (''token='' @ [dquote] @ ''x'' @ [dquote]) ! 0)))
             ''Hardcoded secret detected. Consider using environment variables.'' Warning hardcoded_secret]"
proof -
  let ?d = "\<lparr>uri = ''u'', languageId = ''python'', getText = ''token='' @ [dquote] @ ''x'' @ [dquote]\<rparr>"
  have 1: "0 < length (split_lines (getText ?d))" by code_simp
  have 2: "split_lines (getText ?d) ! 0 = [] @ (''token'' @ [] @ [CHR ''=''] @ [] @ [dquote] @ ''x'' @ [dquote]) @ []"
    by code_simp
  have 3: "secret_literal (''token'' @ [] @ [CHR ''=''] @ [] @ [dquote] @ ''x'' @ [dquote])"
  proof (rule secret_literalI)
    show "toUpperCase ''token'' \<in> set secret_kinds"
      by (simp add: toUpperCase_def upper_char_def secret_kinds_def)
    show "CHR ''='' = CHR '':'' \<or> CHR ''='' = CHR ''=''" by simp
    show "list_all not_quote ''x''"
      by (simp add: not_quote_def is_quote_def dquote_def squote_def backtick_def)
  qed (simp_all add: is_quote_def)
  from hardcoded_secret_reported[OF 1 2 3] show ?thesis by auto
qed

text \<open>A kind name followed by an empty quoted literal is not reported.\<close>

theorem empty_literal_counterexample:
  "findIssuesWithRegex (Some \<lparr>uri = ''u'', languageId = ''python'', getText = ''token = '' @ [dquote, dquote]\<rparr>) = []"
  by code_simp

section \<open>The missing-authorization rule\<close>


lemma length_toUpperCase [simp]: "length (toUpperCase s) = length s"
  by (simp add: toUpperCase_def)

lemma toUpperCase_take: "toUpperCase (take n s) = take n (toUpperCase s)"
  by (simp add: toUpperCase_def take_map)

lemma contains_ci_iff:
  "contains_ci kw s \<longleftrightarrow> (\<exists>u w v. s = u @ w @ v \<and> toUpperCase w = toUpperCase kw)"
proof
  assume "contains_ci kw s"
  then obtain k where k: "k \<le> length s" "prefix (toUpperCase kw) (toUpperCase (drop k s))"
    unfolding contains_ci_def list_ex_iff by (auto simp del: upt_Suc simp: less_Suc_eq_le)
  let ?w = "take (length kw) (drop k s)"
  have "toUpperCase ?w = take (length kw) (toUpperCase (drop k s))" by (rule toUpperCase_take)
  also have "\<dots> = toUpperCase kw" using k(2) by (auto simp: prefix_def)
  finally have "toUpperCase ?w = toUpperCase kw" .
  moreover have "s = take k s @ ?w @ drop (length kw) (drop k s)"
    by (simp only: append_take_drop_id)
  ultimately show "\<exists>u w v. s = u @ w @ v \<and> toUpperCase w = toUpperCase kw" by blast
next
  assume "\<exists>u w v. s = u @ w @ v \<and> toUpperCase w = toUpperCase kw"
  then obtain u w v where s: "s = u @ w @ v" and w: "toUpperCase w = toUpperCase kw" by blast
  have "prefix (toUpperCase kw) (toUpperCase (drop (length u) s))" using s w by simp
  moreover have "length u \<in> set [0..<Suc (length s)]" using s by (simp del: upt_Suc)
  ultimately show "contains_ci kw s" unfolding contains_ci_def list_ex_iff by blast
qed

lemma contains_ci_occurs:
  "contains_ci kw s \<longleftrightarrow> (\<exists>k. occurs (lang (lit_i kw)) s k)"
proof
  assume "contains_ci kw s"
  then obtain u w v where s: "s = u @ w @ v" and w: "toUpperCase w = toUpperCase kw"
    unfolding contains_ci_iff by blast
  have "occurs (lang (lit_i kw)) s (length u)"
    by (rule occurs_at_decomposition[OF s]) (simp add: w)
  then show "\<exists>k. occurs (lang (lit_i kw)) s k" ..
next
  assume "\<exists>k. occurs (lang (lit_i kw)) s k"
  then obtain k w where k: "k \<le> length s" "toUpperCase w = toUpperCase kw" "prefix w (drop k s)"
    by (auto simp: occurs_def)
  then obtain v where "drop k s = w @ v" by (auto simp: prefix_def)
  then have "s = take k s @ w @ v" by (metis append_take_drop_id)
  then show "contains_ci kw s" unfolding contains_ci_iff using k(2) by blast
qed

lemma occurs_mono: "L \<subseteq> L' \<Longrightarrow> occurs L s k \<Longrightarrow> occurs L' s k"
  by (auto simp: occurs_def)

lemma occurs_Un: "occurs (A \<union> B) s k \<longleftrightarrow> occurs A s k \<or> occurs B s k"
  by (auto simp: occurs_def)

lemma plain_authRegex: "plain authRegex"
  by (simp add: authRegex_def)

lemma plain_nameRegex: "plain nameRegex"
  by (simp add: nameRegex_def)

lemma plain_funcRegex: "plain funcRegex"
  by (simp add: funcRegex_def)

lemma auth_keyword_found:
  assumes "contains_ci ''auth'' s"
  shows "test authRegex s"
proof -
  from assms obtain k where "occurs (lang (lit_i ''auth'')) s k" unfolding contains_ci_occurs ..
  moreover have "lang (lit_i ''auth'') \<subseteq> lang authRegex" by (auto simp: authRegex_def)
  ultimately have "occurs (lang authRegex) s k" by (rule occurs_mono[rotated])
  then show ?thesis unfolding test_plain_iff[OF plain_authRegex] ..
qed

lemma contains_ci_sublist:
  assumes "contains_ci kw s" "sublist s t"
  shows "contains_ci kw t"
proof -
  from assms(1) obtain u w v where s: "s = u @ w @ v" and w: "toUpperCase w = toUpperCase kw"
    unfolding contains_ci_iff by blast
  from assms(2) obtain p q where "t = p @ s @ q" by (auto simp: sublist_def)
  then have "t = (p @ u) @ w @ (v @ q)" using s by simp
  then show ?thesis unfolding contains_ci_iff using w by blast
qed

lemma first_truthy_in: "first_truthy xs \<noteq> [] \<Longrightarrow> Some (first_truthy xs) \<in> set xs"
  by (induction xs rule: first_truthy.induct) auto

lemma match_group_sublist:
  assumes "plain r" "match line r = Some m" "groups m g = Some v"
  shows "sublist v line"
proof -
  have R: "\<And>s. fst ` set (rmatch (length line) r (s, \<lambda>_. None)) = {rest. \<exists>w \<in> lang r. s = w @ rest}"
    by (rule rmatch_rests[OF assms(1)])
  from match_Some(4)[OF R assms(2)] obtain rest where
    "(rest, groups m) \<in> set (rmatch (length line) r (drop (index m) line, \<lambda>_. None))" by blast
  from rmatch_caps[OF this assms(3)] have "sublist v (drop (index m) line)" by simp
  moreover have "sublist (drop (index m) line) line" by (simp add: suffix_imp_sublist suffix_drop)
  ultimately show ?thesis by (rule sublist_order.order.trans)
qed

lemma functionName_sublist:
  assumes "functionName line = Some name" "name \<noteq> []"
  shows "sublist name line"
proof -
  from assms(1) obtain m where m: "match line funcRegex = Some m"
    and n: "name = first_truthy [groups m 2, groups m 3, groups m 4]"
    by (auto simp: functionName_def split: option.splits)
  from first_truthy_in[of "[groups m 2, groups m 3, groups m 4]"] assms(2) n
  obtain g where "groups m g = Some name" by auto
  then show ?thesis by (rule match_group_sublist[OF plain_funcRegex m])
qed

lemma contains_ci_nonempty: "contains_ci kw [] \<Longrightarrow> kw = []"
  by (auto simp: contains_ci_iff toUpperCase_def)

lemma window_take: "take (min (length ls) (i + 8) - i) (drop i ls) = take 8 (drop i ls)"
  by (simp add: min_def)

lemma auth_rule_Some:
  assumes "functionName line = Some name"
  shows "auth_rule ls (i, line) =
     (if test nameRegex name \<and> \<not> list_ex (test authRegex) (take 8 (drop i ls))
      then [Diagnostic (RangeOf i 0 i (length line))
              (''Possible missing authorization check in function '' @ [dquote] @ name @ [dquote] @ ''.'')
              Warning missing_auth]
      else [])"
  using assms by (simp add: auth_rule_def window_take Let_def)

lemma window_Cons: "i < length ls \<Longrightarrow> take 8 (drop i ls) = (ls ! i) # take 7 (drop (Suc i) ls)"
proof -
  assume "i < length ls"
  then have dr: "drop i ls = (ls ! i) # drop (Suc i) ls" by (simp add: Cons_nth_drop_Suc)
  show ?thesis by (subst dr) simp
qed

text \<open>What the rule does on a line that defines a function with a name of the four
  kinds; the check of the window is the pattern's own.\<close>

lemma missing_auth_rule:
  assumes "i < length (split_lines (getText d))"
    and "functionName (split_lines (getText d) ! i) = Some name"
    and "test nameRegex name"
  shows "filter (\<lambda>x. code x = missing_auth \<and> startLine (rangeD x) = i) (findIssuesWithRegex (Some d)) =
     (if list_ex (test authRegex) (take 8 (drop i (split_lines (getText d)))) then []
      else [Diagnostic (RangeOf i 0 i (length (split_lines (getText d) ! i)))
              (''Possible missing authorization check in function '' @ [dquote] @ name @ [dquote] @ ''.'')
              Warning missing_auth])"
  using assms by (simp add: auth_diags_of_line auth_rule_Some)

lemma test_lit_i: "test (lit_i kw) s = contains_ci kw s"
  by (simp add: test_plain_iff contains_ci_occurs)

lemma test_Alt:
  assumes "plain a" "plain b"
  shows "test (Alt a b) s = (test a s \<or> test b s)"
  using assms by (auto simp: test_plain_iff occurs_Un)

lemma name_sensitive:
  "test nameRegex s = list_ex (\<lambda>kw. contains_ci kw s) [''login'', ''auth'', ''getuser'', ''admin'']"
  by (simp add: nameRegex_def test_Alt test_lit_i)

lemma plain_req_user: "plain (seqs [lit_i ''req'', Cls is_dot, lit_i ''user''])"
  by simp

lemma literal_req_user:
  assumes "contains_ci ''req.user'' s"
  shows "test (seqs [lit_i ''req'', Cls is_dot, lit_i ''user'']) s"
proof -
  from assms obtain u w v where s: "s = u @ w @ v" and w: "toUpperCase w = toUpperCase (''req'' @ ''.'' @ ''user'')"
    unfolding contains_ci_iff by auto
  from w obtain a c b where abc: "w = a @ c @ b" "toUpperCase a = toUpperCase ''req''"
    "toUpperCase c = toUpperCase ''.''" "toUpperCase b = toUpperCase ''user''"
    unfolding toUpperCase_append toUpperCase_eq_append by force
  have e: "toUpperCase ''.'' = [upper_char CHR ''.'']" by (simp add: toUpperCase_def)
  from abc(3)[unfolded e toUpperCase_single]
  obtain x where x: "c = [x]" "upper_char x = upper_char CHR ''.''" by blast
  have "x = CHR ''.''" using x(2) by (auto simp: upper_char_def split: if_splits)
  then have "is_dot x" by (simp add: is_dot_def LF_def CR_def)
  have "a @ [x] @ b @ [] \<in> lang (seqs [lit_i ''req'', Cls is_dot, lit_i ''user''])"
    by (intro lang_seqs_ConsI lang_seqs_NilI) (simp_all add: abc \<open>is_dot x\<close>)
  then have "w \<in> lang (seqs [lit_i ''req'', Cls is_dot, lit_i ''user''])" using abc(1) x(1) by simp
  then have "occurs (lang (seqs [lit_i ''req'', Cls is_dot, lit_i ''user''])) s (length u)"
    by (rule occurs_at_decomposition[OF s])
  then show ?thesis unfolding test_plain_iff[OF plain_req_user] ..
qed

text \<open>A window line that contains one of the five keywords passes the check.\<close>

lemma auth_keywords_pass:
  assumes "list_ex (\<lambda>kw. contains_ci kw s) [''role'', ''authorize'', ''auth'', ''req.user'', ''hasRole'']"
  shows "test authRegex s"
  using assms literal_req_user[of s]
  by (auto simp: authRegex_def test_Alt test_lit_i plain_req_user simp del: seqs.simps)

text \<open>
  Claim C9. The scan never returns a \<open>missing_auth\<close> diagnostic for a line that defines a
  function whose extracted name contains \<open>auth\<close> in any letter case: the name is part of
  the line, so the line itself passes the check of the window.
\<close>

theorem auth_named_functions_exempt:
  assumes "i < length (split_lines (getText d))"
    and "functionName (split_lines (getText d) ! i) = Some name"
    and "contains_ci ''auth'' name"
  shows "test authRegex (split_lines (getText d) ! i) \<and>
         filter (\<lambda>x. code x = missing_auth \<and> startLine (rangeD x) = i) (findIssuesWithRegex (Some d)) = []"
proof -
  let ?ls = "split_lines (getText d)"
  have "name \<noteq> []" using assms(3) contains_ci_nonempty by fastforce
  then have "sublist name (?ls ! i)" by (rule functionName_sublist[OF assms(2)])
  then have "contains_ci ''auth'' (?ls ! i)" by (rule contains_ci_sublist[OF assms(3)])
  then have t: "test authRegex (?ls ! i)" by (rule auth_keyword_found)
  then have "list_ex (test authRegex) (take 8 (drop i ?ls))" using assms(1) by (simp add: window_Cons)
  then show ?thesis using t assms(1) by (simp add: auth_diags_of_line auth_rule_Some[OF assms(2)])
qed

theorem auth_named_functions_exempt_witness:
  "filter (\<lambda>x. code x = missing_auth \<and> startLine (rangeD x) = 0)
     (findIssuesWithRegex (Some \<lparr>uri = ''u'', languageId = ''python'', getText = ''def checkAuth(u):''\<rparr>)) = []"
proof -
  let ?d = "\<lparr>uri = ''u'', languageId = ''python'', getText = ''def checkAuth(u):''\<rparr>"
  have 1: "0 < length (split_lines (getText ?d))" by code_simp
  have 2: "functionName (split_lines (getText ?d) ! 0) = Some ''checkAuth''" by code_simp
  have 3: "contains_ci ''auth'' ''checkAuth''" by code_simp
  from auth_named_functions_exempt[OF 1 2 3] show ?thesis by simp
qed

text \<open>
  Claim C2 at a failing input. The line defines a function named \<open>getUser\<close>; neither the
  line nor any line after it contains role, authorize, auth, req.user or hasRole; and the
  scan returns no diagnostic, because the unescaped dot of the pattern lets \<open>req,user\<close>
  pass for \<open>req.user\<close>.
\<close>

theorem unescaped_dot_hides_missing_auth:
  "functionName ''function getUser(req,user) {}'' = Some ''getUser''
   \<and> contains_ci ''getuser'' ''getUser''
   \<and> \<not> list_ex (\<lambda>kw. contains_ci kw ''function getUser(req,user) {}'')
          [''role'', ''authorize'', ''auth'', ''req.user'', ''hasRole'']
   \<and> findIssuesWithRegex
        (Some \<lparr>uri = ''u'', languageId = ''javascript'', getText = ''function getUser(req,user) {}''\<rparr>) = []"
  by code_simp

section \<open>Prompt extraction\<close>
lemma promptRegex_split:
  "promptRegex = Seq Bol (seqs (promptHead @ [Grp 1 (many1 is_dot), Eol]))"
  by (simp add: promptRegex_def promptHead_def)

lemma plain_promptHead: "plain (seqs promptHead)" "groupfree (seqs promptHead)"
  by (simp_all add: promptHead_def)

lemma set_rmatch_prompt:
  "set (rmatch n promptRegex (s, c)) =
     (if length s = n
      then {([], c(1 := Some u)) | x u. s = x @ u \<and> x \<in> lang (seqs promptHead) \<and> u \<noteq> [] \<and> list_all is_dot u}
      else {})"
proof (cases "length s = n")
  case False
  then show ?thesis by (simp add: promptRegex_split)
next
  case True
  have tail: "set (rmatch n (seqs [Grp 1 (many1 is_dot), Eol]) (rest, c))
      = {([], c(1 := Some u)) | u. rest = u \<and> u \<noteq> [] \<and> list_all is_dot u}" for rest
  proof -
    have "set (rmatch n (seqs [Grp 1 (many1 is_dot), Eol]) (rest, c))
        = (\<Union>x \<in> set (rmatch n (Grp 1 (many1 is_dot)) (rest, c)). set (rmatch n (Seq Eol Eps) x))"
      by simp
    also have "\<dots> = (\<Union>x \<in> {(r2, c(1 := Some w)) | r2 w. w \<in> lang (many1 is_dot) \<and> rest = w @ r2}.
        set (rmatch n (Seq Eol Eps) x))"
      by (subst set_rmatch_Grp_groupfree) simp_all
    also have "\<dots> = {([], c(1 := Some u)) | u. rest = u \<and> u \<noteq> [] \<and> list_all is_dot u}"
      by (auto split: if_splits)
    finally show ?thesis .
  qed
  have "set (rmatch n promptRegex (s, c))
      = set (rmatch n (Seq (seqs promptHead) (seqs [Grp 1 (many1 is_dot), Eol])) (s, c))"
    using True by (simp add: promptRegex_split rmatch_seqs_append del: seqs.simps)
  also have "\<dots> = (\<Union>x \<in> set (rmatch n (seqs promptHead) (s, c)).
      set (rmatch n (seqs [Grp 1 (many1 is_dot), Eol]) x))"
    by (rule set_rmatch_Seq)
  also have "\<dots> = (\<Union>x \<in> {(rest, c) | rest. \<exists>w \<in> lang (seqs promptHead). s = w @ rest}.
      set (rmatch n (seqs [Grp 1 (many1 is_dot), Eol]) x))"
    by (simp only: set_rmatch_groupfree[OF plain_promptHead])
  also have "\<dots> = {([], c(1 := Some u)) | x u. s = x @ u \<and> x \<in> lang (seqs promptHead) \<and> u \<noteq> [] \<and> list_all is_dot u}"
    by (auto simp: tail simp del: seqs.simps One_nat_def) blast+
  finally show ?thesis using True by simp
qed

lemma search_prompt_short:
  "length s < n \<Longrightarrow> search n promptRegex k s = None"
proof (induction s arbitrary: k)
  case Nil
  have "set (rmatch n promptRegex ([], \<lambda>_. None)) = {}" using Nil by (simp add: set_rmatch_prompt)
  then show ?case by (subst search.simps) simp
next
  case (Cons a s)
  have "set (rmatch n promptRegex (a # s, \<lambda>_. None)) = {}" using Cons.prems by (simp add: set_rmatch_prompt)
  moreover have "search n promptRegex (Suc k) s = None" using Cons by simp
  ultimately show ?case by (subst search.simps) simp
qed

lemma match_prompt:
  "match line promptRegex =
     (case rmatch (length line) promptRegex (line, \<lambda>_. None) of
        [] \<Rightarrow> None
      | (rest, caps) # _ \<Rightarrow>
          Some \<lparr>index = 0, whole = take (length line - length rest) line, groups = caps\<rparr>)"
proof (cases line)
  case Nil
  then show ?thesis unfolding match_def by (subst search.simps) (simp split: list.splits)
next
  case (Cons a s)
  have "search (length line) promptRegex (Suc 0) s = None"
    by (rule search_prompt_short) (simp add: Cons)
  then show ?thesis unfolding match_def Cons by (subst search.simps) (simp split: list.splits)
qed

lemma promptLine_cases:
  "(promptLine (i, line) = None \<and> (\<forall>x u. line = x @ u \<and> x \<in> lang (seqs promptHead) \<longrightarrow> u = [] \<or> \<not> list_all is_dot u))
   \<or> (\<exists>x u. promptLine (i, line) = Some (i, line, trim u) \<and> line = x @ u \<and> x \<in> lang (seqs promptHead)
          \<and> u \<noteq> [] \<and> list_all is_dot u)"
proof (cases "rmatch (length line) promptRegex (line, \<lambda>_. None)")
  case Nil
  then have "set (rmatch (length line) promptRegex (line, \<lambda>_. None)) = {}" by simp
  then have "\<forall>x u. line = x @ u \<and> x \<in> lang (seqs promptHead) \<longrightarrow> u = [] \<or> \<not> list_all is_dot u"
    unfolding set_rmatch_prompt by auto
  moreover have "promptLine (i, line) = None" using Nil by (simp add: promptLine_def match_prompt)
  ultimately show ?thesis by blast
next
  case (Cons r rs)
  obtain rest caps where r: "r = (rest, caps)" by (cases r)
  have "(rest, caps) \<in> set (rmatch (length line) promptRegex (line, \<lambda>_. None))" using Cons r by simp
  then obtain x u where xu: "rest = []" "caps = (\<lambda>_. None)(1 := Some u)" "line = x @ u"
    "x \<in> lang (seqs promptHead)" "u \<noteq> []" "list_all is_dot u"
    unfolding set_rmatch_prompt by auto
  have "promptLine (i, line) = Some (i, line, trim u)"
    using Cons r xu(1,2) by (simp add: promptLine_def match_prompt group_def)
  then show ?thesis using xu by blast
qed


lemma prompt_upper: "toUpperCase ''PROMPT'' = ''PROMPT''"
  by (simp add: toUpperCase_def upper_char_def)

lemma headE:
  assumes "x \<in> lang (seqs promptHead)"
  obtains ws1 mk ws2 kw ws3 ws4 where "x = ws1 @ mk @ ws2 @ kw @ ws3 @ '':'' @ ws4"
    "list_all is_space ws1" "mk = ''//'' \<or> mk = ''#''" "list_all is_space ws2"
    "toUpperCase kw = ''PROMPT''" "list_all is_space ws3" "list_all is_space ws4"
proof -
  from assms[unfolded promptHead_def] obtain ws1 mk ws2 kw ws3 c ws4 where
    x: "x = ws1 @ mk @ ws2 @ kw @ ws3 @ c @ ws4"
    and 1: "ws1 \<in> lang (Star is_space)" and 2: "mk \<in> lang (Alt (lit ''//'') (lit ''#''))"
    and 3: "ws2 \<in> lang (Star is_space)" and 4: "kw \<in> lang (lit_i ''PROMPT'')"
    and 5: "ws3 \<in> lang (Star is_space)" and 6: "c \<in> lang (chr CHR '':'')"
    and 7: "ws4 \<in> lang (Star is_space)"
    by (rule seqs7E)
  have c: "c = '':''" using 6 by simp
  show thesis
  proof (rule that)
    show "x = ws1 @ mk @ ws2 @ kw @ ws3 @ '':'' @ ws4" using x by (simp only: c)
    show "list_all is_space ws1" using 1 by simp
    show "mk = ''//'' \<or> mk = ''#''" using 2 by auto
    show "list_all is_space ws2" using 3 by simp
    show "toUpperCase kw = ''PROMPT''" using 4 by (simp add: prompt_upper)
    show "list_all is_space ws3" using 5 by simp
    show "list_all is_space ws4" using 7 by simp
  qed
qed

lemma headI:
  assumes "list_all is_space ws1" "mk = ''//'' \<or> mk = ''#''" "list_all is_space ws2"
    "toUpperCase kw = ''PROMPT''" "list_all is_space ws3" "list_all is_space ws4"
  shows "ws1 @ mk @ ws2 @ kw @ ws3 @ '':'' @ ws4 \<in> lang (seqs promptHead)"
  unfolding promptHead_def
proof (rule seqs7I)
  show "ws1 \<in> lang (Star is_space)" using assms(1) by simp
  show "mk \<in> lang (Alt (lit ''//'') (lit ''#''))" using assms(2) by auto
  show "ws2 \<in> lang (Star is_space)" using assms(3) by simp
  show "kw \<in> lang (lit_i ''PROMPT'')" using assms(4) by (simp add: prompt_upper)
  show "ws3 \<in> lang (Star is_space)" using assms(5) by simp
  show "'':'' \<in> lang (chr CHR '':'')" by simp
  show "ws4 \<in> lang (Star is_space)" using assms(6) by simp
qed

lemma prompt_lineI:
  assumes "list_all is_space ws1" "mk = ''//'' \<or> mk = ''#''" "list_all is_space ws2"
    "toUpperCase kw = ''PROMPT''" "list_all is_space ws3" "list_all is_space ws4"
    "body \<noteq> []" "list_all is_dot body"
  shows "prompt_line (ws1 @ mk @ ws2 @ kw @ ws3 @ '':'' @ ws4 @ body) body"
  unfolding prompt_line_def
  apply (rule exI[of _ ws1], rule exI[of _ mk], rule exI[of _ ws2], rule exI[of _ kw],
      rule exI[of _ ws3], rule exI[of _ ws4])
  apply (intro conjI refl assms)
  done

lemma prompt_line_iff:
  "prompt_line line body \<longleftrightarrow>
     (\<exists>x. line = x @ body \<and> x \<in> lang (seqs promptHead)) \<and> body \<noteq> [] \<and> list_all is_dot body"
proof
  assume "prompt_line line body"
  then obtain ws1 mk ws2 kw ws3 ws4 where l: "line = ws1 @ mk @ ws2 @ kw @ ws3 @ '':'' @ ws4 @ body"
    and a: "list_all is_space ws1" "mk = ''//'' \<or> mk = ''#''" "list_all is_space ws2"
      "toUpperCase kw = ''PROMPT''" "list_all is_space ws3" "list_all is_space ws4"
    and b: "body \<noteq> []" "list_all is_dot body"
    unfolding prompt_line_def by (elim exE conjE)
  have h: "ws1 @ mk @ ws2 @ kw @ ws3 @ '':'' @ ws4 \<in> lang (seqs promptHead)"
    using a by (rule headI)
  have "line = (ws1 @ mk @ ws2 @ kw @ ws3 @ '':'' @ ws4) @ body" using l by simp
  then have "\<exists>x. line = x @ body \<and> x \<in> lang (seqs promptHead)" using h by (intro exI conjI)
  then show "(\<exists>x. line = x @ body \<and> x \<in> lang (seqs promptHead)) \<and> body \<noteq> [] \<and> list_all is_dot body"
    using b by (intro conjI)
next
  assume r: "(\<exists>x. line = x @ body \<and> x \<in> lang (seqs promptHead)) \<and> body \<noteq> [] \<and> list_all is_dot body"
  then obtain x where x: "line = x @ body" "x \<in> lang (seqs promptHead)"
    and b: "body \<noteq> []" "list_all is_dot body" by (elim exE conjE)
  from x(2) obtain ws1 mk ws2 kw ws3 ws4 where h: "x = ws1 @ mk @ ws2 @ kw @ ws3 @ '':'' @ ws4"
    and a: "list_all is_space ws1" "mk = ''//'' \<or> mk = ''#''" "list_all is_space ws2"
    "toUpperCase kw = ''PROMPT''" "list_all is_space ws3" "list_all is_space ws4"
    by (rule headE)
  have "prompt_line (ws1 @ mk @ ws2 @ kw @ ws3 @ '':'' @ ws4 @ body) body"
    using a b by (rule prompt_lineI)
  moreover have "line = ws1 @ mk @ ws2 @ kw @ ws3 @ '':'' @ ws4 @ body" using x(1) h by simp
  ultimately show "prompt_line line body" by (simp only:)
qed

lemma colon_not_space: "is_space c \<Longrightarrow> c \<noteq> CHR '':''"
  by (auto simp: is_space_def LF_def CR_def)

lemma colon_not_in_spaces: "list_all is_space ws \<Longrightarrow> CHR '':'' \<notin> set ws"
  using colon_not_space by (auto simp: list_all_iff)

lemma colon_not_in_keyword:
  assumes "toUpperCase kw = ''PROMPT''"
  shows "CHR '':'' \<notin> set kw"
proof
  assume "CHR '':'' \<in> set kw"
  then have "upper_char CHR '':'' \<in> set (toUpperCase kw)" by (simp add: toUpperCase_def)
  then show False unfolding assms by (simp add: upper_char_def)
qed

lemma head_colon:
  assumes "x \<in> lang (seqs promptHead)"
  shows "\<exists>y ws. x = y @ '':'' @ ws \<and> CHR '':'' \<notin> set y \<and> list_all is_space ws"
proof -
  from assms obtain ws1 mk ws2 kw ws3 ws4 where x: "x = ws1 @ mk @ ws2 @ kw @ ws3 @ '':'' @ ws4"
    and a: "list_all is_space ws1" "mk = ''//'' \<or> mk = ''#''" "list_all is_space ws2"
      "toUpperCase kw = ''PROMPT''" "list_all is_space ws3" "list_all is_space ws4"
    by (rule headE)
  have "CHR '':'' \<notin> set (ws1 @ mk @ ws2 @ kw @ ws3)"
    using colon_not_in_spaces[OF a(1)] colon_not_in_spaces[OF a(3)] colon_not_in_spaces[OF a(5)]
      colon_not_in_keyword[OF a(4)] a(2) by auto
  moreover have "x = (ws1 @ mk @ ws2 @ kw @ ws3) @ '':'' @ ws4" using x by simp
  ultimately show ?thesis using a(6) by blast
qed

lemma first_occurrence_unique:
  assumes "y @ c # r = y' @ c # r'" "c \<notin> set y" "c \<notin> set y'"
  shows "y = y' \<and> r = r'"
  using assms
proof (induction y arbitrary: y')
  case Nil
  then show ?case by (cases y') auto
next
  case (Cons a y)
  then show ?case by (cases y') auto
qed

lemma trim_spaces: "list_all is_space ws \<Longrightarrow> trim (ws @ u) = trim u"
  by (simp add: trim_def dropWhile_append2 list_all_iff)

lemma head_trim:
  assumes "x \<in> lang (seqs promptHead)" "x' \<in> lang (seqs promptHead)" "x @ u = x' @ u'"
  shows "trim u = trim u'"
proof -
  from head_colon[OF assms(1)] obtain y ws where x: "x = y @ '':'' @ ws" "CHR '':'' \<notin> set y" "list_all is_space ws"
    by blast
  from head_colon[OF assms(2)] obtain y' ws' where x': "x' = y' @ '':'' @ ws'" "CHR '':'' \<notin> set y'" "list_all is_space ws'"
    by blast
  have "(y @ '':'' @ ws) @ u = (y' @ '':'' @ ws') @ u'" using assms(3) unfolding x(1) x'(1) .
  then have "y @ CHR '':'' # (ws @ u) = y' @ CHR '':'' # (ws' @ u')" by simp
  then have "ws @ u = ws' @ u'"
    by (rule first_occurrence_unique[THEN conjunct2, OF _ x(2) x'(2)])
  then have "trim (ws @ u) = trim (ws' @ u')" by (rule arg_cong)
  then show ?thesis by (simp only: trim_spaces[OF x(3)] trim_spaces[OF x'(3)])
qed

lemma promptLine_prompt:
  assumes "prompt_line line body"
  shows "promptLine (i, line) = Some (i, line, trim body)"
proof -
  from assms obtain x where x: "line = x @ body" "x \<in> lang (seqs promptHead)" "body \<noteq> []" "list_all is_dot body"
    unfolding prompt_line_iff by blast
  from promptLine_cases[of i line] x
  obtain x' u where u: "promptLine (i, line) = Some (i, line, trim u)" "line = x' @ u" "x' \<in> lang (seqs promptHead)"
    by blast
  have "trim body = trim u" using head_trim[OF x(2) u(3)] x(1) u(2) by simp
  then show ?thesis using u(1) by simp
qed

lemma promptLine_none:
  assumes "\<forall>body. \<not> prompt_line line body"
  shows "promptLine (i, line) = None"
  using promptLine_cases[of i line] assms unfolding prompt_line_iff by blast

lemma map_filter_concat:
  "List.map_filter f xs = concat (map (\<lambda>x. case f x of None \<Rightarrow> [] | Some y \<Rightarrow> [y]) xs)"
  by (induction xs) (auto simp: List.map_filter_simps split: option.splits)

lemma promptLines_of_line:
  assumes "i < length lines"
  shows "filter (\<lambda>p. fst p = i) (promptLines lines)
     = (case promptLine (i, lines ! i) of None \<Rightarrow> [] | Some y \<Rightarrow> [y])"
proof -
  have key: "\<And>j x y. y \<in> set (case promptLine (j, x) of None \<Rightarrow> [] | Some y \<Rightarrow> [y]) \<Longrightarrow> fst y = j"
    by (auto split: option.splits dest: promptLine_fst[OF sym])
  have "filter (\<lambda>p. True \<and> fst p = i) (concat (map (\<lambda>x. case promptLine x of None \<Rightarrow> [] | Some y \<Rightarrow> [y]) (enumerate 0 lines)))
     = (if 0 \<le> i \<and> i < 0 + length lines
        then filter (\<lambda>p. True) (case promptLine (i, lines ! (i - 0)) of None \<Rightarrow> [] | Some y \<Rightarrow> [y]) else [])"
    by (rule filter_concat_enumerate[where f = "\<lambda>x. case promptLine x of None \<Rightarrow> [] | Some y \<Rightarrow> [y]"
          and key = fst and P = "\<lambda>_. True"]) (rule key)
  then show ?thesis using assms by (simp add: promptLines_def map_filter_concat)
qed

lemma timersOf_trigger_other:
  "timersOf (triggerEnhancementRequest st d n p) k (Inflight j) =
     (if k = uri d \<and> j = n then Some True else timersOf st k (Inflight j))"
  by (simp add: timersOf_trigger)

lemma requests_trigger:
  "requests (triggerEnhancementRequest st d n p) =
     (if inFlight st (uri d) n then requests st else requests st @ [(uri d, n, p)])"
  by (simp add: triggerEnhancementRequest_def Let_def inFlight_def)

lemma requests_detectLoop:
  assumes "distinct (map fst ps)" "\<forall>p \<in> set ps. \<not> inFlight st (uri d) (fst p)"
  shows "requests (snd (detectLoop d ps (acc, st))) = requests st @ map (\<lambda>(i, line, p). (uri d, i, p)) ps"
  using assms
proof (induction ps arbitrary: acc st)
  case Nil
  then show ?case by simp
next
  case (Cons a ps)
  obtain i line p where a: "a = (i, line, p)" by (cases a)
  let ?st = "triggerEnhancementRequest st d i p"
  have r: "requests ?st = requests st @ [(uri d, i, p)]"
    using Cons.prems(2) a by (simp add: requests_trigger)
  have "\<forall>q \<in> set ps. \<not> inFlight ?st (uri d) (fst q)"
  proof
    fix q assume q: "q \<in> set ps"
    then have "fst q \<noteq> i" using Cons.prems(1) a by auto
    moreover have "\<not> inFlight st (uri d) (fst q)" using Cons.prems(2) q by simp
    ultimately show "\<not> inFlight ?st (uri d) (fst q)"
      by (simp add: inFlight_def timersOf_trigger_other)
  qed
  moreover have "distinct (map fst ps)" using Cons.prems(1) by simp
  ultimately have "requests (snd (detectLoop d ps (acc @ [loadingDiag i line], ?st)))
      = requests ?st @ map (\<lambda>(i, line, p). (uri d, i, p)) ps"
    by (rule Cons.IH[rotated])
  then show ?case using r a by simp
qed

lemma requests_detect_initial:
  assumes "isTargetDoc (Some d)"
  shows "requests (detectAndEnhancePrompts initial (Some d))
     = map (\<lambda>(i, line, p). (uri d, i, p)) (promptLines (split_lines (getText d)))"
proof -
  let ?ps = "promptLines (split_lines (getText d))"
  have "\<forall>p \<in> set ?ps. \<not> inFlight initial (uri d) (fst p)"
    by (simp add: inFlight_def timersOf_def initial_def)
  then have "requests (snd (detectLoop d ?ps ([], initial))) = requests initial @ map (\<lambda>(i, line, p). (uri d, i, p)) ?ps"
    by (rule requests_detectLoop[OF distinct_promptLines])
  then show ?thesis using assms
    by (simp add: detectAndEnhancePrompts_def Let_def split_def initial_def)
qed

text \<open>
  Claim C3. For a document of a supported language, the prompts extracted from its lines
  are what a scan pass hands to the enhancement client, in the order of the lines. A line
  of the form of a prompt line yields exactly one pair: its zero-based index with its text
  trimmed of surrounding whitespace (the line itself is kept with the pair). A line that
  is not of that form yields nothing.
\<close>

theorem prompt_extraction:
  assumes "isTargetDoc (Some d)" and "i < length (split_lines (getText d))"
  shows "requests (detectAndEnhancePrompts initial (Some d))
           = map (\<lambda>(i, line, p). (uri d, i, p)) (promptLines (split_lines (getText d)))
       \<and> sorted_wrt (<) (map fst (promptLines (split_lines (getText d))))
       \<and> (\<forall>body. prompt_line (split_lines (getText d) ! i) body \<longrightarrow>
             filter (\<lambda>p. fst p = i) (promptLines (split_lines (getText d)))
               = [(i, split_lines (getText d) ! i, trim body)])
       \<and> ((\<forall>body. \<not> prompt_line (split_lines (getText d) ! i) body) \<longrightarrow>
             filter (\<lambda>p. fst p = i) (promptLines (split_lines (getText d))) = [])"
  using requests_detect_initial[OF assms(1)] sorted_promptLines[of "split_lines (getText d)"]
  by (simp add: promptLines_of_line[OF assms(2)] promptLine_prompt promptLine_none)

theorem prompt_extraction_witness:
  "filter (\<lambda>p. fst p = 0) (promptLines (split_lines (getText
      \<lparr>uri = ''u'', languageId = ''python'', getText = ''# prompt: add a form ''\<rparr>)))
     = [(0, ''# prompt: add a form '', trim ''add a form '')]"
proof -
  let ?d = "\<lparr>uri = ''u'', languageId = ''python'', getText = ''# prompt: add a form ''\<rparr>"
  have 1: "isTargetDoc (Some ?d)" by code_simp
  have 2: "0 < length (split_lines (getText ?d))" by code_simp
  have l: "split_lines (getText ?d) ! 0 = [] @ ''#'' @ '' '' @ ''prompt'' @ [] @ '':'' @ '' '' @ ''add a form ''"
    by code_simp
  have 3: "prompt_line ([] @ ''#'' @ '' '' @ ''prompt'' @ [] @ '':'' @ '' '' @ ''add a form '') ''add a form ''"
  proof (rule prompt_lineI)
    show "list_all is_space []" by simp
    show "''#'' = ''//'' \<or> ''#'' = ''#''" by simp
    show "list_all is_space '' ''" by (simp add: is_space_def)
    show "toUpperCase ''prompt'' = ''PROMPT''" by (simp add: toUpperCase_def upper_char_def)
    show "list_all is_space []" by simp
    show "list_all is_space '' ''" by (simp add: is_space_def)
    show "''add a form '' \<noteq> []" by simp
    show "list_all is_dot ''add a form ''" by (simp add: is_dot_def LF_def CR_def)
  qed
  have e: "[] @ ''#'' @ '' '' @ ''prompt'' @ [] @ '':'' @ '' '' @ ''add a form '' = ''# prompt: add a form ''"
    by simp
  from prompt_extraction[OF 1 2, THEN conjunct2, THEN conjunct2, THEN conjunct1, rule_format, of "''add a form ''"] 3
  show ?thesis unfolding l e by (simp only:)
qed
section \<open>The quick fix for hardcoded secrets\<close>


lemma in_rmatch_Backref:
  "(r3, caps) \<in> set (rmatch n (Seq (Backref g) Eps) (r2, c)) \<longleftrightarrow>
     caps = c \<and> (case c g of None \<Rightarrow> r3 = r2 | Some t \<Rightarrow> r2 = t @ r3)"
  by (auto simp: prefix_def split: option.splits)

lemma in_rmatch_quote:
  "(r3, caps) \<in> set (rmatch n quoteRegex (s, \<lambda>_. None)) \<longleftrightarrow>
     (\<exists>q body. is_quote q \<and> body \<noteq> [] \<and> list_all not_quote body \<and> s = q # body @ q # r3
        \<and> caps = (\<lambda>_. None)(1 := Some [q], 2 := Some body))"
proof -
  have g1: "set (rmatch n (Grp 1 (Cls is_quote)) (s, \<lambda>_. None))
      = {(rest, (\<lambda>_. None)(1 := Some w)) | rest w. w \<in> lang (Cls is_quote) \<and> s = w @ rest}"
    by (rule set_rmatch_Grp_groupfree) simp_all
  have g2: "set (rmatch n (Grp 2 (many1 not_quote)) (rest, c))
      = {(r2, c(2 := Some w)) | r2 w. w \<in> lang (many1 not_quote) \<and> rest = w @ r2}" for rest c
    by (rule set_rmatch_Grp_groupfree) simp_all
  have top: "set (rmatch n quoteRegex (s, \<lambda>_. None))
      = (\<Union>x \<in> set (rmatch n (Grp 1 (Cls is_quote)) (s, \<lambda>_. None)).
           set (rmatch n (Seq (Grp 2 (many1 not_quote)) (Seq (Backref 1) Eps)) x))"
    unfolding quoteRegex_def seqs.simps by (rule set_rmatch_Seq)
  have inner: "set (rmatch n (Seq (Grp 2 (many1 not_quote)) (Seq (Backref 1) Eps)) x)
      = (\<Union>y \<in> set (rmatch n (Grp 2 (many1 not_quote)) x). set (rmatch n (Seq (Backref 1) Eps) y))" for x
    by (rule set_rmatch_Seq)
  show ?thesis
  proof
    assume "(r3, caps) \<in> set (rmatch n quoteRegex (s, \<lambda>_. None))"
    then obtain x where x: "x \<in> set (rmatch n (Grp 1 (Cls is_quote)) (s, \<lambda>_. None))"
      and 1: "(r3, caps) \<in> set (rmatch n (Seq (Grp 2 (many1 not_quote)) (Seq (Backref 1) Eps)) x)"
      unfolding top by blast
    from x obtain rest w where xe: "x = (rest, (\<lambda>_. None)(1 := Some w))" and w: "w \<in> lang (Cls is_quote)" "s = w @ rest"
      unfolding g1 by blast
    from w(1) obtain q where q: "w = [q]" "is_quote q" by auto
    from 1 obtain y where y: "y \<in> set (rmatch n (Grp 2 (many1 not_quote)) (rest, (\<lambda>_. None)(1 := Some w)))"
      and 2: "(r3, caps) \<in> set (rmatch n (Seq (Backref 1) Eps) y)"
      unfolding inner xe by blast
    from y obtain r2 body where ye: "y = (r2, (\<lambda>_. None)(1 := Some w, 2 := Some body))"
      and body: "body \<in> lang (many1 not_quote)" "rest = body @ r2"
      unfolding g2 by blast
    from 2 have "caps = (\<lambda>_. None)(1 := Some w, 2 := Some body)" "r2 = w @ r3"
      unfolding ye in_rmatch_Backref by simp_all
    then show "\<exists>q body. is_quote q \<and> body \<noteq> [] \<and> list_all not_quote body \<and> s = q # body @ q # r3
        \<and> caps = (\<lambda>_. None)(1 := Some [q], 2 := Some body)"
      using q body w(2) by (intro exI[of _ q] exI[of _ body]) simp
  next
    assume "\<exists>q body. is_quote q \<and> body \<noteq> [] \<and> list_all not_quote body \<and> s = q # body @ q # r3
        \<and> caps = (\<lambda>_. None)(1 := Some [q], 2 := Some body)"
    then obtain q body where a: "is_quote q" "body \<noteq> []" "list_all not_quote body" "s = q # body @ q # r3"
      "caps = (\<lambda>_. None)(1 := Some [q], 2 := Some body)" by blast
    have x: "(body @ q # r3, (\<lambda>_. None)(1 := Some [q])) \<in> set (rmatch n (Grp 1 (Cls is_quote)) (s, \<lambda>_. None))"
      unfolding g1 using a(1,4) by simp
    have y: "(q # r3, (\<lambda>_. None)(1 := Some [q], 2 := Some body))
        \<in> set (rmatch n (Grp 2 (many1 not_quote)) (body @ q # r3, (\<lambda>_. None)(1 := Some [q])))"
      unfolding g2 using a(2,3) by simp
    have z: "(r3, caps) \<in> set (rmatch n (Seq (Backref 1) Eps) (q # r3, (\<lambda>_. None)(1 := Some [q], 2 := Some body)))"
      unfolding in_rmatch_Backref using a(5) by simp
    show "(r3, caps) \<in> set (rmatch n quoteRegex (s, \<lambda>_. None))"
      unfolding top inner using x y z by blast
  qed
qed

lemma quote_recognised:
  "fst ` set (rmatch n quoteRegex (s, \<lambda>_. None)) = {rest. \<exists>w \<in> Collect quoted_literal. s = w @ rest}"
proof (intro set_eqI iffI)
  fix rest assume "rest \<in> fst ` set (rmatch n quoteRegex (s, \<lambda>_. None))"
  then obtain caps where "(rest, caps) \<in> set (rmatch n quoteRegex (s, \<lambda>_. None))" by auto
  then obtain q body where "is_quote q" "body \<noteq> []" "list_all not_quote body" "s = q # body @ q # rest"
    unfolding in_rmatch_quote by blast
  then have "quoted_literal ([q] @ body @ [q])" "s = ([q] @ body @ [q]) @ rest"
    unfolding quoted_literal_def by auto
  then show "rest \<in> {rest. \<exists>w \<in> Collect quoted_literal. s = w @ rest}" by blast
next
  fix rest assume "rest \<in> {rest. \<exists>w \<in> Collect quoted_literal. s = w @ rest}"
  then obtain q body where "is_quote q" "body \<noteq> []" "list_all not_quote body" "s = q # body @ q # rest"
    unfolding quoted_literal_def by auto
  then have "(rest, (\<lambda>_. None)(1 := Some [q], 2 := Some body)) \<in> set (rmatch n quoteRegex (s, \<lambda>_. None))"
    unfolding in_rmatch_quote by blast
  then show "rest \<in> fst ` set (rmatch n quoteRegex (s, \<lambda>_. None))" by force
qed


lemma kind_recognised:
  "fst ` set (rmatch n kindRegex (s, \<lambda>_. None)) = {rest. \<exists>w \<in> lang secretKind. s = w @ rest}"
  using rmatch_rests[of kindRegex n s "\<lambda>_. None"] by (simp add: kindRegex_def plain_secretKind)

lemma kind_group:
  assumes "match line kindRegex = Some m"
  shows "group m 1 = whole m"
proof -
  from match_Some(4)[OF kind_recognised assms] obtain rest where
    r: "(rest, groups m) \<in> set (rmatch (length line) kindRegex (drop (index m) line, \<lambda>_. None))"
    and d: "drop (index m) line = whole m @ rest" by blast
  from r obtain c where "groups m = c(1 := Some (take (length (drop (index m) line) - length rest) (drop (index m) line)))"
    unfolding kindRegex_def by auto
  then have "groups m 1 = Some (whole m)" unfolding d by simp
  then show ?thesis by (simp add: group_def)
qed

lemma kind_unique:
  assumes "toUpperCase a \<in> set secret_kinds" "toUpperCase b \<in> set secret_kinds" "prefix a s" "prefix b s"
  shows "a = b"
proof -
  have one: "x = y" if "toUpperCase x \<in> set secret_kinds" "toUpperCase y \<in> set secret_kinds" "prefix x y" for x y
  proof -
    from that(3) obtain r where r: "y = x @ r" by (auto simp: prefix_def)
    have "toUpperCase y = toUpperCase x @ toUpperCase r" unfolding r by simp
    then have "toUpperCase r = []" using that(1,2) by (auto simp: secret_kinds_def)
    then show ?thesis using r by (simp add: toUpperCase_def)
  qed
  from assms(3,4) have "prefix a b \<or> prefix b a" by (rule prefix_same_cases)
  then show ?thesis using one[OF assms(1,2)] one[OF assms(2,1)] by auto
qed

lemma envNameOf_first:
  assumes "first_at (lang secretKind) line k" "prefix tok (drop k line)" "toUpperCase tok \<in> set secret_kinds"
  shows "envNameOf line = sanitize (toUpperCase tok)"
proof -
  have "occurs (lang secretKind) line k" using assms(1) by (simp add: first_at_def)
  then obtain m where m: "match line kindRegex = Some m"
    using match_occurs[OF kind_recognised] by blast
  have "index m = k" by (rule first_at_unique[OF match_Some(1)[OF kind_recognised m] assms(1)])
  then have "prefix (whole m) (drop k line)" using match_Some(3)[OF kind_recognised m] by simp
  moreover have "toUpperCase (whole m) \<in> set secret_kinds"
    using match_Some(2)[OF kind_recognised m] by (simp add: kind_words)
  ultimately have "whole m = tok" using kind_unique assms(2,3) by blast
  then show ?thesis using m kind_group[OF m] by (simp add: envNameOf_def)
qed

lemma envNameOf_none:
  assumes "\<forall>k. \<not> occurs (lang secretKind) line k"
  shows "envNameOf line = ''SECRET''"
proof (cases "match line kindRegex")
  case None
  then show ?thesis by (simp add: envNameOf_def)
next
  case (Some m)
  have "occurs (lang secretKind) line (index m)"
    using match_Some(1)[OF kind_recognised Some] by (simp add: first_at_def)
  then show ?thesis using assms by blast
qed

lemma quoted_unique:
  assumes "[q] @ body @ [q] @ post = [q'] @ body' @ [q'] @ post'"
    "list_all not_quote body" "list_all not_quote body'" "is_quote q"
  shows "q' = q \<and> body' = body \<and> post' = post"
proof -
  have q: "q' = q" using assms(1) by simp
  have "q \<notin> set body" "q \<notin> set body'" using assms(2,3,4) by (auto simp: list_all_iff not_quote_def)
  moreover have "body @ q # post = body' @ q # post'" using assms(1) q by simp
  ultimately have "body = body' \<and> post = post'" by (rule first_occurrence_unique[rotated])
  then show ?thesis using q by simp
qed

lemma fixEdit_literal:
  assumes "first_at (Collect quoted_literal) line j" "drop j line = [q] @ body @ [q] @ post"
    "is_quote q" "list_all not_quote body"
  shows "fixEdit d rng line =
     \<lparr>editUri = uri d,
      editRange = RangeOf (startLine rng) j (startLine rng) (j + length body + 2),
      newText = ''process.env.'' @ envNameOf line\<rparr>"
proof -
  have "occurs (Collect quoted_literal) line j" using assms(1) by (simp add: first_at_def)
  then obtain m where m: "match line quoteRegex = Some m"
    using match_occurs[OF quote_recognised] by blast
  have j: "index m = j" by (rule first_at_unique[OF match_Some(1)[OF quote_recognised m] assms(1)])
  have "quoted_literal (whole m)" using match_Some(2)[OF quote_recognised m] by simp
  then obtain q' body' where w: "whole m = [q'] @ body' @ [q']" "list_all not_quote body'"
    unfolding quoted_literal_def by blast
  from match_Some(3)[OF quote_recognised m] obtain post' where p: "drop j line = whole m @ post'"
    unfolding j by (auto simp: prefix_def)
  have "[q] @ body @ [q] @ post = drop j line" by (rule assms(2)[symmetric])
  also have "\<dots> = ([q'] @ body' @ [q']) @ post'" unfolding p w(1) ..
  also have "\<dots> = [q'] @ body' @ [q'] @ post'" by (simp only: append_assoc)
  finally have "[q] @ body @ [q] @ post = [q'] @ body' @ [q'] @ post'" .
  then have "q' = q \<and> body' = body \<and> post' = post" using assms(4) w(2) assms(3) by (rule quoted_unique)
  then have len: "length (whole m) = length body + 2" using w(1) by simp
  have "indexOf line (whole m) = Some j" using match_Some(5)[OF quote_recognised m] j by simp
  then show ?thesis using m len by (simp add: fixEdit_def Let_def nat_add_distrib)
qed

lemma fixEdit_no_literal:
  assumes "\<forall>k. \<not> occurs (Collect quoted_literal) line k"
  shows "fixEdit d rng line =
     \<lparr>editUri = uri d,
      editRange = RangeOf (startLine rng) 0 (startLine rng) (length line),
      newText = replace line rhsRegex (''= process.env.'' @ envNameOf line)\<rparr>"
proof (cases "match line quoteRegex")
  case None
  then show ?thesis by (simp add: fixEdit_def Let_def)
next
  case (Some m)
  have "occurs (Collect quoted_literal) line (index m)"
    using match_Some(1)[OF quote_recognised Some] by (simp add: first_at_def)
  then show ?thesis using assms by blast
qed

lemma provideCodeActions_line:
  assumes "lineAt d (startLine rng) = Inr line"
  shows "provideCodeActions d rng ctx =
     Inr (map (\<lambda>dg. \<lparr>title = ''Replace literal with process.env reference'', diagnostics = [dg],
                      edit = [fixEdit d rng line],
                      command = (''SafePrompt.runScan'', ''Rescan (SafePrompt)'')\<rparr>)
            (filter (\<lambda>dg. code dg = hardcoded_secret) ctx))"
  using assms by (induction ctx) simp_all

lemma applyEdit_span:
  assumes "j \<le> length line" "drop j line = w @ post"
  shows "applyEdit line \<lparr>editUri = u, editRange = RangeOf l j l (j + length w), newText = t\<rparr>
           = take j line @ t @ post"
proof -
  have "drop (j + length w) line = drop (length w) (drop j line)" by (simp add: add.commute)
  also have "\<dots> = post" unfolding assms(2) by simp
  finally show ?thesis by (simp add: applyEdit_def RangeOf_def)
qed


lemma search_head:
  "search n r k s = Some m \<Longrightarrow>
     \<exists>j. j \<le> length s \<and> index m = k + j \<and> rmatch n r (drop j s, \<lambda>_. None) \<noteq> [] \<and>
         (\<forall>i < j. rmatch n r (drop i s, \<lambda>_. None) = []) \<and>
         whole m = take (length (drop j s) - length (fst (hd (rmatch n r (drop j s, \<lambda>_. None))))) (drop j s)"
proof (induction s arbitrary: k)
  case Nil
  then obtain rest caps xs where e: "rmatch n r ([], \<lambda>_. None) = (rest, caps) # xs"
    and m: "m = \<lparr>index = k, whole = take (length ([]::string) - length rest) [], groups = caps\<rparr>"
    by (subst (asm) search.simps) (auto split: list.splits)
  show ?case using e m by (intro exI[of _ 0]) simp
next
  case (Cons c cs)
  show ?case
  proof (cases "rmatch n r (c # cs, \<lambda>_. None)")
    case Nil
    then have rec: "search n r (Suc k) cs = Some m"
      using Cons.prems by (subst (asm) search.simps) simp
    from Cons.IH[OF rec] obtain j where j: "j \<le> length cs" "index m = Suc k + j"
      "rmatch n r (drop j cs, \<lambda>_. None) \<noteq> []" "\<forall>i < j. rmatch n r (drop i cs, \<lambda>_. None) = []"
      "whole m = take (length (drop j cs) - length (fst (hd (rmatch n r (drop j cs, \<lambda>_. None))))) (drop j cs)"
      by blast
    have "\<forall>i < Suc j. rmatch n r (drop i (c # cs), \<lambda>_. None) = []"
    proof (intro allI impI)
      fix i assume "i < Suc j"
      then show "rmatch n r (drop i (c # cs), \<lambda>_. None) = []"
        using Nil j(4) by (cases i) simp_all
    qed
    then show ?thesis using j by (intro exI[of _ "Suc j"]) simp
  next
    case (Cons x xs)
    obtain rest caps where x: "x = (rest, caps)" by (cases x)
    have m: "m = \<lparr>index = k, whole = take (length (c # cs) - length rest) (c # cs), groups = caps\<rparr>"
      using Cons.prems Cons x by (subst (asm) search.simps) simp
    show ?thesis using Cons x m by (intro exI[of _ 0]) simp
  qed
qed

lemma occurs_drop: "j \<le> length s \<Longrightarrow> occurs L (drop j s) 0 = occurs L s j"
  by (simp add: occurs_def)

lemma plain_rhsRegex: "plain rhsRegex"
  by (simp add: rhsRegex_def)

lemma rhs_recognised:
  "fst ` set (rmatch n rhsRegex (s, \<lambda>_. None)) = {rest. \<exists>w \<in> lang rhsRegex. s = w @ rest}"
  by (rule rmatch_rests[OF plain_rhsRegex])

lemma rhs_words: "lang rhsRegex = Collect assigned_text"
proof (intro set_eqI iffI)
  fix w assume "w \<in> lang rhsRegex"
  then obtain a v1 where 1: "w = a @ v1" "a \<in> lang (chr CHR ''='')"
    "v1 \<in> lang (seqs [Cls is_quote, Star is_dot, Cls is_quote])"
    unfolding rhsRegex_def by (rule lang_seqs_ConsE)
  from 1(3) obtain b v2 where 2: "v1 = b @ v2" "b \<in> lang (Cls is_quote)" "v2 \<in> lang (seqs [Star is_dot, Cls is_quote])"
    by (rule lang_seqs_ConsE)
  from 2(3) obtain mid v3 where 3: "v2 = mid @ v3" "mid \<in> lang (Star is_dot)" "v3 \<in> lang (seqs [Cls is_quote])"
    by (rule lang_seqs_ConsE)
  from 3(3) obtain e v4 where 4: "v3 = e @ v4" "e \<in> lang (Cls is_quote)" "v4 \<in> lang (seqs [])"
    by (rule lang_seqs_ConsE)
  from 2(2) obtain q1 where q1: "b = [q1]" "is_quote q1" by auto
  from 4(2) obtain q2 where q2: "e = [q2]" "is_quote q2" by auto
  have "w = ''='' @ [q1] @ mid @ [q2]" using 1(1,2) 2(1) 3(1) 4(1,3) q1(1) q2(1) by simp
  then have "assigned_text w" unfolding assigned_text_def using q1(2) q2(2) 3(2) by auto
  then show "w \<in> Collect assigned_text" by simp
next
  fix w assume "w \<in> Collect assigned_text"
  then obtain q1 mid q2 where w: "w = ''='' @ [q1] @ mid @ [q2]"
    and a: "is_quote q1" "list_all is_dot mid" "is_quote q2"
    unfolding assigned_text_def by auto
  have "''='' @ [q1] @ mid @ [q2] @ [] \<in> lang rhsRegex"
    unfolding rhsRegex_def by (intro lang_seqs_ConsI lang_seqs_NilI) (simp_all add: a)
  then show "w \<in> lang rhsRegex" using w by simp
qed

lemma quote_is_dot: "is_quote q \<Longrightarrow> is_dot q"
  by (auto simp: is_quote_def is_dot_def squote_def dquote_def backtick_def LF_def CR_def)

lemma star_greedy:
  assumes "list_all p mid"
  shows "\<exists>X. concat (map g (star_rests p (mid @ r))) = concat (map g (star_rests p r)) @ X"
  using assms
proof (induction mid)
  case Nil
  then show ?case by simp
next
  case (Cons a mid)
  then obtain X where "concat (map g (star_rests p (mid @ r))) = concat (map g (star_rests p r)) @ X"
    by auto
  then have "concat (map g (star_rests p ((a # mid) @ r))) = concat (map g (star_rests p r)) @ (X @ g (a # mid @ r))"
    using Cons.prems by simp
  then show ?case by blast
qed

lemma rmatch_rhs:
  assumes "is_quote q1"
  shows "rmatch n rhsRegex (CHR ''='' # q1 # t, c)
     = concat (map (\<lambda>r. rmatch n (Seq (Cls is_quote) Eps) (r, c)) (star_rests is_dot t))"
  using assms by (simp add: rhsRegex_def chr_def comp_def map_concat)

lemma rhs_head:
  assumes "is_quote q1" "list_all is_dot mid" "is_quote q2" "no_quote_ahead post"
  shows "\<exists>X. rmatch n rhsRegex (CHR ''='' # q1 # mid @ q2 # post, c) = (post, c) # X"
proof -
  let ?g = "\<lambda>r. rmatch n (Seq (Cls is_quote) Eps) (r, c)"
  have none: "?g r = []" if "r \<in> set (star_rests is_dot post)" for r
  proof (cases r)
    case Nil
    then show ?thesis by simp
  next
    case (Cons x r')
    from that obtain w where "post = w @ r" "list_all is_dot w" unfolding set_star_rests by blast
    then have "post = w @ [x] @ r'" using Cons by simp
    then have "\<not> is_quote x" using assms(4) \<open>list_all is_dot w\<close> unfolding no_quote_ahead_def by blast
    then show ?thesis using Cons by simp
  qed
  then have 0: "concat (map ?g (star_rests is_dot post)) = []" by simp
  have "star_rests is_dot (q2 # post) = star_rests is_dot post @ [q2 # post]"
    using quote_is_dot[OF assms(3)] by simp
  then have 1: "concat (map ?g (star_rests is_dot (q2 # post))) = [(post, c)]"
    using 0 assms(3) by simp
  from star_greedy[OF assms(2), where g = ?g and r = "q2 # post"] obtain X where
    "concat (map ?g (star_rests is_dot (mid @ q2 # post))) = concat (map ?g (star_rests is_dot (q2 # post))) @ X"
    by blast
  then have "concat (map ?g (star_rests is_dot (mid @ q2 # post))) = (post, c) # X" using 1 by simp
  then show ?thesis using rmatch_rhs[OF assms(1), where n = n and t = "mid @ q2 # post" and c = c] by simp
qed

lemma take_whole_word: "take (length w) (w @ p) = w"
  by simp

lemma drop_whole_word: "drop (length pre + length w) (pre @ w @ p) = p"
  by simp

lemma replace_rhs:
  assumes "line = pre @ ''='' @ [q1] @ mid @ [q2] @ post"
    and "is_quote q1" "list_all is_dot mid" "is_quote q2" "no_quote_ahead post"
    and "\<forall>i < length pre. \<not> occurs (Collect assigned_text) line i"
  shows "replace line rhsRegex t = pre @ t @ post"
proof -
  let ?w = "''='' @ [q1] @ mid @ [q2]"
  have d: "drop (length pre) line = CHR ''='' # q1 # mid @ q2 # post" using assms(1) by simp
  from rhs_head[OF assms(2-5), where n = "length line" and c = "\<lambda>_. None"] obtain X where
    h: "rmatch (length line) rhsRegex (drop (length pre) line, \<lambda>_. None) = (post, \<lambda>_. None) # X"
    unfolding d by blast
  have "assigned_text ?w" unfolding assigned_text_def using assms(2,3,4) by blast
  then have "occurs (lang rhsRegex) line (length pre)"
    unfolding rhs_words using assms(1) by (intro occurs_at_decomposition[where w = ?w and post = post]) simp_all
  then obtain m where m: "match line rhsRegex = Some m"
    using match_occurs[OF rhs_recognised] by blast
  from search_head[OF m[unfolded match_def]] obtain j where j: "j \<le> length line" "index m = j"
    "rmatch (length line) rhsRegex (drop j line, \<lambda>_. None) \<noteq> []"
    "\<forall>i < j. rmatch (length line) rhsRegex (drop i line, \<lambda>_. None) = []"
    "whole m = take (length (drop j line) - length (fst (hd (rmatch (length line) rhsRegex (drop j line, \<lambda>_. None))))) (drop j line)"
    by auto
  have "occurs (lang rhsRegex) line j"
    using j(1,3) occurs_0_iff[OF rhs_recognised, where n = "length line" and s = "drop j line"] by (simp add: occurs_drop)
  then have ge: "length pre \<le> j" using assms(6) unfolding rhs_words by (meson not_le_imp_less)
  have "\<not> length pre < j" using j(4) h by auto
  then have je: "j = length pre" using ge by simp
  have "whole m = take (length (drop (length pre) line) - length post) (drop (length pre) line)"
    using j(5) h unfolding je by simp
  moreover have "length (drop (length pre) line) - length post = length ?w" unfolding d by simp
  moreover have "take (length ?w) (drop (length pre) line) = ?w"
  proof -
    have "drop (length pre) line = ?w @ post" unfolding d by simp
    then show ?thesis by (simp only: take_whole_word)
  qed
  ultimately have wm: "whole m = ?w" by (simp only:)
  have l: "line = pre @ ?w @ post" using assms(1) by simp
  have dr: "drop (length pre + length ?w) line = post"
    by (subst l) (rule drop_whole_word)
  have tk: "take (length pre) line = pre" by (subst l) simp
  have "replace line rhsRegex t = take (index m) line @ t @ drop (index m + length (whole m)) line"
    using m by (simp add: replace_def)
  also have "\<dots> = pre @ t @ post" unfolding j(2) je wm dr tk ..
  finally show ?thesis .
qed

lemma replace_rhs_none:
  assumes "\<forall>k. \<not> occurs (Collect assigned_text) line k"
  shows "replace line rhsRegex t = line"
proof (cases "match line rhsRegex")
  case None
  then show ?thesis by (simp add: replace_def)
next
  case (Some m)
  have "occurs (lang rhsRegex) line (index m)"
    using match_Some(1)[OF rhs_recognised Some] by (simp add: first_at_def)
  then show ?thesis using assms unfolding rhs_words by blast
qed


lemma kind_set: "lang secretKind = Collect secret_kind"
  unfolding kind_words secret_kind_def ..

lemma envNameOf_cases:
  assumes "(\<exists>k tok. first_at (Collect secret_kind) line k \<and> prefix tok (drop k line) \<and> secret_kind tok
                \<and> name = sanitize (toUpperCase tok))
           \<or> ((\<forall>k. \<not> occurs (Collect secret_kind) line k) \<and> name = ''SECRET'')"
  shows "envNameOf line = name"
  using assms
proof (elim disjE exE conjE)
  fix k tok
  assume "first_at (Collect secret_kind) line k" "prefix tok (drop k line)" "secret_kind tok"
    "name = sanitize (toUpperCase tok)"
  then show ?thesis
    using envNameOf_first[of line k tok] by (simp add: kind_set secret_kind_def)
next
  assume "\<forall>k. \<not> occurs (Collect secret_kind) line k" "name = ''SECRET''"
  then show ?thesis using envNameOf_none[of line] by (simp add: kind_set)
qed

lemma applyEdit_whole: "applyEdit line \<lparr>editUri = u, editRange = RangeOf l 0 l (length line), newText = t\<rparr> = t"
  by (simp add: applyEdit_def RangeOf_def)

text \<open>
  What the quick fix does on every line and for every context. It answers with one action for
  each diagnostic of the context whose code is \<open>SafePrompt.hardcoded_secret\<close>; each action
  carries that diagnostic, one edit of the line at which the requested range starts, and the
  command that scans again. The name of the environment variable is the first name of a kind
  of secret on the line, uppercased and with every character outside \<open>[A-Z0-9_]\<close> replaced by
  \<open>_\<close>, and \<open>SECRET\<close> when the line has none. When the line has a quoted literal (a quote
  character, a non-empty text without quote characters, and the same quote character again),
  the edit replaces the first one by \<open>process.env.<NAME>\<close>. When it has none, the edit rewrites
  the whole line: the first equals sign that is directly followed by a quote character, up to
  the last quote character of the line, becomes \<open>= process.env.<NAME>\<close>, and a line without
  such a text stays as it is.
\<close>

lemma quick_fix_edit:
  assumes "lineAt d (startLine rng) = Inr line"
    and "(\<exists>k tok. first_at (Collect secret_kind) line k \<and> prefix tok (drop k line) \<and> secret_kind tok
                \<and> name = sanitize (toUpperCase tok))
         \<or> ((\<forall>k. \<not> occurs (Collect secret_kind) line k) \<and> name = ''SECRET'')"
  shows "provideCodeActions d rng ctx =
           Inr (map (\<lambda>dg. \<lparr>title = ''Replace literal with process.env reference'', diagnostics = [dg],
                            edit = [fixEdit d rng line],
                            command = (''SafePrompt.runScan'', ''Rescan (SafePrompt)'')\<rparr>)
                  (filter (\<lambda>dg. code dg = hardcoded_secret) ctx))
    \<and> editUri (fixEdit d rng line) = uri d
    \<and> (\<forall>j q body post.
           first_at (Collect quoted_literal) line j \<and> drop j line = [q] @ body @ [q] @ post \<and>
           is_quote q \<and> list_all not_quote body \<longrightarrow>
             editRange (fixEdit d rng line) = RangeOf (startLine rng) j (startLine rng) (j + length body + 2) \<and>
             newText (fixEdit d rng line) = ''process.env.'' @ name \<and>
             applyEdit line (fixEdit d rng line) = take j line @ ''process.env.'' @ name @ post)
    \<and> ((\<forall>k. \<not> occurs (Collect quoted_literal) line k) \<longrightarrow>
           editRange (fixEdit d rng line) = RangeOf (startLine rng) 0 (startLine rng) (length line) \<and>
           applyEdit line (fixEdit d rng line) = newText (fixEdit d rng line) \<and>
           (\<forall>pre q1 mid q2 post.
              line = pre @ ''='' @ [q1] @ mid @ [q2] @ post \<and> is_quote q1 \<and> list_all is_dot mid \<and>
              is_quote q2 \<and> no_quote_ahead post \<and> (\<forall>i < length pre. \<not> occurs (Collect assigned_text) line i)
              \<longrightarrow> newText (fixEdit d rng line) = pre @ ''= process.env.'' @ name @ post) \<and>
           ((\<forall>k. \<not> occurs (Collect assigned_text) line k) \<longrightarrow> newText (fixEdit d rng line) = line))"
    (is "?actions \<and> ?uri \<and> ?literal \<and> (?none \<longrightarrow> ?range \<and> ?applied \<and> ?rhs \<and> ?same)")
proof -
  have n: "envNameOf line = name" by (rule envNameOf_cases[OF assms(2)])
  have A: ?actions by (rule provideCodeActions_line[OF assms(1)])
  have B: ?uri by (simp add: fixEdit_def Let_def split: option.split)
  have C: ?literal
  proof (intro allI impI, elim conjE)
    fix j q body post
    assume a: "first_at (Collect quoted_literal) line j" "drop j line = [q] @ body @ [q] @ post"
      "is_quote q" "list_all not_quote body"
    have e: "fixEdit d rng line =
        \<lparr>editUri = uri d,
         editRange = RangeOf (startLine rng) j (startLine rng) (j + length ([q] @ body @ [q])),
         newText = ''process.env.'' @ name\<rparr>"
      using fixEdit_literal[OF a] n by simp
    have le: "j \<le> length line" using a(1) by (simp add: first_at_def occurs_def)
    have dr: "drop j line = ([q] @ body @ [q]) @ post" using a(2) by simp
    have "applyEdit line (fixEdit d rng line) = take j line @ (''process.env.'' @ name) @ post"
      unfolding e by (rule applyEdit_span[OF le dr])
    then show "editRange (fixEdit d rng line) = RangeOf (startLine rng) j (startLine rng) (j + length body + 2) \<and>
             newText (fixEdit d rng line) = ''process.env.'' @ name \<and>
             applyEdit line (fixEdit d rng line) = take j line @ ''process.env.'' @ name @ post"
      using e by simp
  qed
  have D: "?range \<and> ?applied \<and> ?rhs \<and> ?same" if no: ?none
  proof -
    have e: "fixEdit d rng line =
       \<lparr>editUri = uri d, editRange = RangeOf (startLine rng) 0 (startLine rng) (length line),
        newText = replace line rhsRegex (''= process.env.'' @ name)\<rparr>"
      using fixEdit_no_literal[OF no] n by simp
    have 1: ?range unfolding e by simp
    have 2: ?applied unfolding e by (simp add: applyEdit_whole)
    have 3: ?rhs
    proof (intro allI impI, elim conjE)
      fix pre q1 mid q2 post
      assume a: "line = pre @ ''='' @ [q1] @ mid @ [q2] @ post" "is_quote q1" "list_all is_dot mid"
        "is_quote q2" "no_quote_ahead post" "\<forall>i < length pre. \<not> occurs (Collect assigned_text) line i"
      have "replace line rhsRegex (''= process.env.'' @ name) = pre @ (''= process.env.'' @ name) @ post"
        by (rule replace_rhs[OF a])
      then show "newText (fixEdit d rng line) = pre @ ''= process.env.'' @ name @ post"
        unfolding e by simp
    qed
    have 4: ?same unfolding e by (simp add: replace_rhs_none)
    show ?thesis using 1 2 3 4 by (intro conjI)
  qed
  show ?thesis using A B C D by (intro conjI impI) blast+
qed

lemma quick_fix_edit_example:
  "provideCodeActions \<lparr>uri = ''config.js'', languageId = ''javascript'',
                        getText = ''token = '' @ [squote] @ ''abc'' @ [squote] @ '';''\<rparr>
       (RangeOf 0 0 0 0) [Diagnostic (RangeOf 0 0 0 14) ''m'' Warning hardcoded_secret,
                          Diagnostic (RangeOf 0 0 0 14) ''m'' Warning missing_auth]
     = Inr [\<lparr>title = ''Replace literal with process.env reference'',
             diagnostics = [Diagnostic (RangeOf 0 0 0 14) ''m'' Warning hardcoded_secret],
             edit = [\<lparr>editUri = ''config.js'', editRange = RangeOf 0 8 0 13, newText = ''process.env.TOKEN''\<rparr>],
             command = (''SafePrompt.runScan'', ''Rescan (SafePrompt)'')\<rparr>]
   \<and> applyEdit (''token = '' @ [squote] @ ''abc'' @ [squote] @ '';'')
        \<lparr>editUri = ''config.js'', editRange = RangeOf 0 8 0 13, newText = ''process.env.TOKEN''\<rparr>
     = ''token = process.env.TOKEN;''"
proof -
  let ?line = "''token = '' @ [squote] @ ''abc'' @ [squote] @ '';''"
  let ?d = "\<lparr>uri = ''config.js'', languageId = ''javascript'', getText = ?line\<rparr>"
  let ?rng = "RangeOf 0 0 0 0"
  let ?ctx = "[Diagnostic (RangeOf 0 0 0 14) ''m'' Warning hardcoded_secret,
               Diagnostic (RangeOf 0 0 0 14) ''m'' Warning missing_auth]"
  have l: "lineAt ?d (startLine ?rng) = Inr ?line" by code_simp
  have "map_option index (match ?line kindRegex) = Some 0" by code_simp
  then obtain m where m: "match ?line kindRegex = Some m" "index m = 0" by auto
  have k: "first_at (Collect secret_kind) ?line 0"
    using match_Some(1)[OF kind_recognised m(1)] m(2) by (simp add: kind_set)
  have p: "prefix ''token'' (drop 0 ?line)" by simp
  have s: "secret_kind ''token''" by code_simp
  have u: "''TOKEN'' = sanitize (toUpperCase ''token'')" by code_simp
  have "map_option index (match ?line quoteRegex) = Some 8" by code_simp
  then obtain m' where m': "match ?line quoteRegex = Some m'" "index m' = 8" by auto
  have j: "first_at (Collect quoted_literal) ?line 8"
    using match_Some(1)[OF quote_recognised m'(1)] m'(2) by simp
  have dr: "drop 8 ?line = [squote] @ ''abc'' @ [squote] @ '';''" by simp
  have q: "is_quote squote" by (simp add: is_quote_def)
  have b: "list_all not_quote ''abc''" by code_simp
  have n: "(\<exists>k tok. first_at (Collect secret_kind) ?line k \<and> prefix tok (drop k ?line) \<and> secret_kind tok
                \<and> ''TOKEN'' = sanitize (toUpperCase tok))
         \<or> ((\<forall>k. \<not> occurs (Collect secret_kind) ?line k) \<and> ''TOKEN'' = ''SECRET'')"
    using k p s u by blast
  note t = quick_fix_edit[OF l n, where ctx = ?ctx]
  have e: "fixEdit ?d ?rng ?line = \<lparr>editUri = ''config.js'', editRange = RangeOf 0 8 0 13, newText = ''process.env.TOKEN''\<rparr>"
    using t[THEN conjunct2, THEN conjunct1]
      t[THEN conjunct2, THEN conjunct2, THEN conjunct1, rule_format, of 8 squote "''abc''" "'';''"] j dr q b
    by (simp add: RangeOf_def)
  have c: "hardcoded_secret \<noteq> missing_auth" by code_simp
  have 1: "provideCodeActions ?d ?rng ?ctx
     = Inr [\<lparr>title = ''Replace literal with process.env reference'',
             diagnostics = [Diagnostic (RangeOf 0 0 0 14) ''m'' Warning hardcoded_secret],
             edit = [\<lparr>editUri = ''config.js'', editRange = RangeOf 0 8 0 13, newText = ''process.env.TOKEN''\<rparr>],
             command = (''SafePrompt.runScan'', ''Rescan (SafePrompt)'')\<rparr>]"
    using t[THEN conjunct1] c unfolding e by (simp add: Diagnostic_def)
  have "applyEdit ?line (fixEdit ?d ?rng ?line) = take 8 ?line @ ''process.env.'' @ ''TOKEN'' @ '';''"
    using t[THEN conjunct2, THEN conjunct2, THEN conjunct1, rule_format, of 8 squote "''abc''" "'';''"] j dr q b
    by blast
  then have 2: "applyEdit ?line \<lparr>editUri = ''config.js'', editRange = RangeOf 0 8 0 13, newText = ''process.env.TOKEN''\<rparr>
     = ''token = process.env.TOKEN;''"
    unfolding e by simp
  show ?thesis using 1 2 by (rule conjI)
qed

text \<open>
  Claim C8 at a failing input. The line assigns to \<open>token\<close> a text in double quotes that holds
  an apostrophe, with a space on either side of the equals sign. The scan reports a hardcoded
  secret on the line, and the quick fix for that diagnostic answers with an edit that writes
  the line back as it is: the literal pattern wants the quote character that opens the literal
  to close it, and finds the apostrophe first; the pattern of the other branch wants the quote
  character directly after the equals sign, where the pattern of the scan allows spaces. At a
  second input, a call with a URL in double quotes before the token and its secret, the diagnostic
  starts at column 50 and the edit replaces columns 21 to 46, the URL, leaving the secret in
  the line.
\<close>

theorem quick_fix_misses_secret:
  "(let line = ''token = '' @ [dquote] @ ''it'' @ [squote] @ ''s secret'' @ [dquote];
        d = \<lparr>uri = ''u'', languageId = ''javascript'', getText = line\<rparr>;
        diag = Diagnostic (RangeOf 0 0 0 21)
                 ''Hardcoded secret detected. Consider using environment variables.'' Warning hardcoded_secret;
        e = \<lparr>editUri = ''u'', editRange = RangeOf 0 0 0 21, newText = line\<rparr>
    in findIssuesWithRegex (Some d) = [diag]
       \<and> provideCodeActions d (rangeD diag) [diag]
           = Inr [\<lparr>title = ''Replace literal with process.env reference'', diagnostics = [diag],
                   edit = [e], command = (''SafePrompt.runScan'', ''Rescan (SafePrompt)'')\<rparr>]
       \<and> applyEdit line e = line)
   \<and> (let line = ''const c = new Client('' @ [dquote] @ ''https://api.example.com'' @ [dquote]
                   @ '', { token: '' @ [dquote] @ ''abc'' @ [dquote] @ '' })'';
        d = \<lparr>uri = ''u'', languageId = ''javascript'', getText = line\<rparr>;
        diag = Diagnostic (RangeOf 0 50 0 65)
                 ''Hardcoded secret detected. Consider using environment variables.'' Warning hardcoded_secret;
        e = \<lparr>editUri = ''u'', editRange = RangeOf 0 21 0 46, newText = ''process.env.TOKEN''\<rparr>
    in findIssuesWithRegex (Some d) = [diag]
       \<and> provideCodeActions d (rangeD diag) [diag]
           = Inr [\<lparr>title = ''Replace literal with process.env reference'', diagnostics = [diag],
                   edit = [e], command = (''SafePrompt.runScan'', ''Rescan (SafePrompt)'')\<rparr>]
       \<and> applyEdit line e
           = ''const c = new Client(process.env.TOKEN, { token: '' @ [dquote] @ ''abc'' @ [dquote] @ '' })'')"
  by code_simp

end
